theory Spec2Isabelle
  imports Complex_Main
begin

section \<open>Python strings\<close>

text \<open>
  Text is a list of characters, each character one code point in the range 0..255.
  On that range the character classes below are those of Python 3:
  \<^verbatim>\<open>str.isspace\<close> (also used by \<^verbatim>\<open>str.strip()\<close> and by \<^verbatim>\<open>\s\<close>),
  the decimal digits of \<^verbatim>\<open>\d\<close>, \<^verbatim>\<open>str.isdigit\<close>, and the word characters of
  \<^verbatim>\<open>\w\<close> (alphanumerics and the underscore).
\<close>

definition code :: "char \<Rightarrow> nat" where
  "code c = of_char c"

definition is_space :: "char \<Rightarrow> bool" where
  "is_space c = (let n = code c in
     (9 \<le> n \<and> n \<le> 13) \<or> (28 \<le> n \<and> n \<le> 32) \<or> n = 133 \<or> n = 160)"

definition is_decimal :: "char \<Rightarrow> bool" where
  "is_decimal c = (let n = code c in 48 \<le> n \<and> n \<le> 57)"

definition is_digit_char :: "char \<Rightarrow> bool" where
  "is_digit_char c = (let n = code c in
     (48 \<le> n \<and> n \<le> 57) \<or> n = 178 \<or> n = 179 \<or> n = 185)"

definition is_word :: "char \<Rightarrow> bool" where
  "is_word c = (let n = code c in
     (48 \<le> n \<and> n \<le> 57) \<or> (65 \<le> n \<and> n \<le> 90) \<or> n = 95 \<or> (97 \<le> n \<and> n \<le> 122)
     \<or> n = 170 \<or> n = 178 \<or> n = 179 \<or> n = 181 \<or> n = 185 \<or> n = 186
     \<or> n = 188 \<or> n = 189 \<or> n = 190
     \<or> (192 \<le> n \<and> n \<le> 214) \<or> (216 \<le> n \<and> n \<le> 246) \<or> (248 \<le> n \<and> n \<le> 255))"

text \<open>\<^verbatim>\<open>str.lower()\<close>, one character at a time.\<close>

definition lower_char :: "char \<Rightarrow> char" where
  "lower_char c = (let n = code c in
     if (65 \<le> n \<and> n \<le> 90) \<or> (192 \<le> n \<and> n \<le> 214) \<or> (216 \<le> n \<and> n \<le> 222)
     then char_of (n + 32) else c)"

definition lower :: "string \<Rightarrow> string" where
  "lower s = map lower_char s"

text \<open>\<^verbatim>\<open>s.strip()\<close> and \<^verbatim>\<open>s.strip(chars)\<close>.\<close>

definition strip :: "string \<Rightarrow> string" where
  "strip s = rev (dropWhile is_space (rev (dropWhile is_space s)))"

definition strip_chars :: "string \<Rightarrow> string \<Rightarrow> string" where
  "strip_chars chars s =
     rev (dropWhile (\<lambda>c. c \<in> set chars) (rev (dropWhile (\<lambda>c. c \<in> set chars) s)))"

text \<open>\<^verbatim>\<open>s.split(sep)\<close> for a separator of one character: never an empty list.\<close>

primrec split :: "char \<Rightarrow> string \<Rightarrow> string list" where
  "split sep [] = [[]]"
| "split sep (c # cs) =
     (if c = sep then [] # split sep cs
      else (case split sep cs of [] \<Rightarrow> [[c]] | x # xs \<Rightarrow> (c # x) # xs))"

text \<open>\<^verbatim>\<open>sep.join(xs)\<close>.\<close>

fun join :: "string \<Rightarrow> string list \<Rightarrow> string" where
  "join sep [] = []"
| "join sep [x] = x"
| "join sep (x # y # ys) = x @ sep @ join sep (y # ys)"

text \<open>\<^verbatim>\<open>sub in s\<close>.\<close>

definition startswith :: "string \<Rightarrow> string \<Rightarrow> bool" where
  "startswith s sub = (take (length sub) s = sub)"

primrec contains :: "string \<Rightarrow> string \<Rightarrow> bool" where
  "contains [] sub = (sub = [])"
| "contains (c # cs) sub = (startswith (c # cs) sub \<or> contains cs sub)"

text \<open>\<^verbatim>\<open>s.replace(old, '', 1)\<close> for one character \<open>old\<close>, and \<^verbatim>\<open>s.isdigit()\<close>.\<close>

primrec remove_first :: "char \<Rightarrow> string \<Rightarrow> string" where
  "remove_first old [] = []"
| "remove_first old (c # cs) = (if c = old then cs else c # remove_first old cs)"

definition isdigit :: "string \<Rightarrow> bool" where
  "isdigit s = (s \<noteq> [] \<and> list_all is_digit_char s)"

section \<open>Floats\<close>

text \<open>
  A Python float is either finite or infinite. \<open>Finite q\<close> stands for the binary64
  number nearest to the rational \<open>q\<close>; the rounding itself is not modelled. Numbers are
  compared by value, so the integer 0 the code starts from is \<open>Finite 0\<close>.
  \<^verbatim>\<open>float(s)\<close> of a decimal numeral is infinite from \<open>2^1024 - 2^970\<close> on, the
  point where rounding to nearest leaves the binary64 range. That bound is a whole
  number and the fraction of a numeral is below 1, so a numeral reaches the bound exactly
  when its integer part does.
\<close>

datatype pyfloat = Finite rat | Infinity

definition digit_value :: "char \<Rightarrow> nat" where
  "digit_value c = code c - 48"

definition decimal_value :: "string \<Rightarrow> nat" where
  "decimal_value ds = foldl (\<lambda>a d. 10 * a + digit_value d) 0 ds"

definition float_overflow_bound :: nat where
  "float_overflow_bound = 2 ^ 1024 - 2 ^ 970"

text \<open>
  \<^verbatim>\<open>float(s)\<close> on the strings that reach it here: decimal digits with at most one
  point. Anything else raises ValueError, whose message quotes the string.
\<close>

definition py_float :: "string \<Rightarrow> string + pyfloat" where
  "py_float s =
     (let ip = takeWhile (\<lambda>c. c \<noteq> CHR ''.'') s;
          fp = drop 1 (dropWhile (\<lambda>c. c \<noteq> CHR ''.'') s)
      in if list_all is_decimal (ip @ fp) \<and> ip @ fp \<noteq> []
         then Inr (if decimal_value ip < float_overflow_bound
                   then Finite (of_nat (decimal_value ip)
                                + of_nat (decimal_value fp) / 10 ^ length fp)
                   else Infinity)
         else Inl (''could not convert string to float: '' @ [CHR 0x27] @ s @ [CHR 0x27]))"

text \<open>\<^verbatim>\<open>int(x)\<close> of a float raises OverflowError on infinity; the integer is only printed.\<close>

definition py_int_raises :: "pyfloat \<Rightarrow> string option" where
  "py_int_raises x =
     (case x of Finite q \<Rightarrow> None
      | Infinity \<Rightarrow> Some ''cannot convert float infinity to integer'')"

section \<open>Verdict extractor\<close>

subsection \<open>Scanning the judge's answer\<close>

text \<open>
  \<^verbatim>\<open>re.findall(r'\b(yes|no|\d+(?:\.\d+)?)\b', ans, re.IGNORECASE)\<close>.
  A position is a word boundary when exactly one of the characters before and after it
  is a word character; outside the text counts as no word character.
\<close>

definition word_boundary :: "bool \<Rightarrow> string \<Rightarrow> bool" where
  "word_boundary prev_word s = (prev_word \<noteq> (case s of [] \<Rightarrow> False | c # _ \<Rightarrow> is_word c))"

text \<open>A literal of lower-case letters under IGNORECASE.\<close>

definition imatch :: "string \<Rightarrow> string \<Rightarrow> bool" where
  "imatch lit s = (length lit \<le> length s \<and> lower (take (length lit) s) = lit)"

text \<open>
  \<^verbatim>\<open>\d+(?:\.\d+)?\b\<close>: the digits are taken greedily; the fraction is kept when it
  ends at a word boundary, and given up otherwise (no shorter run of digits ends at one).
  The result is the token and the text after it.
\<close>

definition match_number :: "string \<Rightarrow> (string \<times> string) option" where
  "match_number s =
     (let d1 = takeWhile is_decimal s; r1 = dropWhile is_decimal s
      in if d1 = [] then None
         else (case r1 of
                 c # r2 \<Rightarrow>
                   (let d2 = takeWhile is_decimal r2; r3 = dropWhile is_decimal r2
                    in if c = CHR ''.'' \<and> d2 \<noteq> [] \<and> word_boundary True r3
                       then Some (d1 @ [c] @ d2, r3)
                       else if word_boundary True r1 then Some (d1, r1) else None)
               | [] \<Rightarrow> Some (d1, r1)))"

definition match_token :: "bool \<Rightarrow> string \<Rightarrow> (string \<times> string) option" where
  "match_token prev_word s =
     (if \<not> word_boundary prev_word s then None
      else if imatch ''yes'' s \<and> word_boundary True (drop 3 s) then Some (take 3 s, drop 3 s)
      else if imatch ''no'' s \<and> word_boundary True (drop 2 s) then Some (take 2 s, drop 2 s)
      else match_number s)"

text \<open>
  The scan goes left to right; after a match it goes on behind the token, whose last
  character is a word character.
\<close>

function findall :: "bool \<Rightarrow> string \<Rightarrow> string list" where
  "findall prev_word [] = []"
| "findall prev_word (c # cs) =
     (case match_token prev_word (c # cs) of
        Some (tok, rest) \<Rightarrow> tok # findall True rest
      | None \<Rightarrow> findall (is_word c) cs)"
  by pat_completeness auto
termination
proof -
  have number: "length rest < length s" if m: "match_number s = Some (tok, rest)"
    for s tok rest
  proof -
    have d1: "takeWhile is_decimal s \<noteq> []"
      using m by (auto simp: match_number_def Let_def)
    then obtain c cs where s: "s = c # cs" and c: "is_decimal c"
      by (cases s) (auto split: if_splits)
    have r1: "length (dropWhile is_decimal s) \<le> length cs"
      using s c by (simp add: length_dropWhile_le)
    have "rest = dropWhile is_decimal s
        \<or> (\<exists>r2. dropWhile is_decimal s = CHR ''.'' # r2 \<and> rest = dropWhile is_decimal r2)"
      using m d1 by (auto simp: match_number_def Let_def split: list.splits if_splits)
    then show ?thesis
    proof
      assume "rest = dropWhile is_decimal s"
      then show ?thesis using r1 s by simp
    next
      assume "\<exists>r2. dropWhile is_decimal s = CHR ''.'' # r2 \<and> rest = dropWhile is_decimal r2"
      then obtain r2 where a: "dropWhile is_decimal s = CHR ''.'' # r2"
        and b: "rest = dropWhile is_decimal r2" by blast
      have "length rest \<le> length r2" using b by (simp add: length_dropWhile_le)
      also have "length r2 < length (dropWhile is_decimal s)" using a by simp
      finally show ?thesis using r1 s by simp
    qed
  qed
  have token: "length rest < length s" if "match_token prev_word s = Some (tok, rest)"
    for prev_word s tok rest
    using that
    by (auto simp: match_token_def imatch_def dest: number split: if_splits)
  show ?thesis
    by (relation "measure (\<lambda>(p, s). length s)") (auto dest: token)
qed

subsection \<open>Reading the verdict off the tokens\<close>

text \<open>
  The two tests the code applies to a token: \<^verbatim>\<open>n.lower() in ["yes", "no"]\<close> and
  \<^verbatim>\<open>n.replace('.', '', 1).isdigit()\<close>.
\<close>

definition is_yes_no :: "string \<Rightarrow> bool" where
  "is_yes_no n = (lower n \<in> set [''yes'', ''no''])"

definition is_numeric :: "string \<Rightarrow> bool" where
  "is_numeric n = isdigit (remove_first (CHR ''.'') n)"

text \<open>
  The loop \<^verbatim>\<open>for n in numbers: if n.lower() in ["yes", "no"]: progress = n.lower(); break\<close>,
  started from \<^verbatim>\<open>progress = "None"\<close>.
\<close>

fun find_progress :: "string list \<Rightarrow> string" where
  "find_progress [] = ''None''"
| "find_progress (n # ns) = (if is_yes_no n then lower n else find_progress ns)"

text \<open>\<^verbatim>\<open>[float(n) for n in numbers if n.replace('.', '', 1).isdigit()]\<close>; the first
  \<^verbatim>\<open>float\<close> that raises ends the comprehension.\<close>

fun num_values :: "string list \<Rightarrow> string + pyfloat list" where
  "num_values [] = Inr []"
| "num_values (n # ns) =
     (if is_numeric n
      then (case py_float n of
              Inl e \<Rightarrow> Inl e
            | Inr x \<Rightarrow> (case num_values ns of Inl e \<Rightarrow> Inl e | Inr xs \<Rightarrow> Inr (x # xs)))
      else num_values ns)"

text \<open>
  Lines 107 to 127 of the source: the answer is scanned, the first yes/no token and the
  first number are kept, the second number is converted to an integer for the log.
  \<open>Inl\<close> carries the message of an exception raised on the way.
\<close>

definition parse_answer :: "string \<Rightarrow> string + (int \<times> string \<times> pyfloat)" where
  "parse_answer ans =
     (let numbers = findall False ans
      in if numbers = [] then Inr (200, ''None'', Finite 0)
         else (let progress = find_progress numbers
               in case num_values numbers of
                    Inl e \<Rightarrow> Inl e
                  | Inr vs \<Rightarrow>
                      (let est_hours = (if 1 \<le> length vs then vs ! 0 else Finite 0)
                       in if 2 \<le> length vs
                          then (case py_int_raises (vs ! 1) of
                                  Some e \<Rightarrow> Inl e
                                | None \<Rightarrow> Inr (200, progress, est_hours))
                          else Inr (200, progress, est_hours))))"

subsection \<open>The prompt\<close>

record evidence =
  hash :: string
  message :: string
  author_username :: string
  author_email :: string
  function_id :: string
  code_diff :: "string option"

text \<open>
  Line 90. The author is rendered as \<^verbatim>\<open>name <email>\<close>; a diff that is
  \<^verbatim>\<open>None\<close> is rendered as the text \<^verbatim>\<open>None\<close> by the f-string.
\<close>

definition render_author :: "evidence \<Rightarrow> string" where
  "render_author commit = author_username commit @ '' <'' @ author_email commit @ ''>''"

definition commit_info :: "evidence \<Rightarrow> string" where
  "commit_info commit =
     ''Commit message: '' @ message commit @ ''\<newline>Author: '' @ render_author commit
     @ ''\<newline>Code diff:\<newline>''
     @ (case code_diff commit of None \<Rightarrow> ''None'' | Some d \<Rightarrow> d)"

definition build_prompt :: "evidence list \<Rightarrow> string \<Rightarrow> string" where
  "build_prompt filtered_commits description =
     ''\<newline>    Based on the above commit details, provide a single overall answer for the following:\<newline>''
     @ ''Does the combined work in these commits align with the description above? Output only ''
     @ [CHR 0x27] @ ''yes'' @ [CHR 0x27] @ '' or '' @ [CHR 0x27] @ ''no'' @ [CHR 0x27] @ ''.\<newline>''
     @ ''How much time would an industrial developer take for following code work? Output only a number.\<newline>''
     @ ''Description: '' @ description @ ''\<newline>\<newline>Commit Details (all relevant commits):\<newline>''
     @ join ''\<newline>\<newline>'' (map commit_info filtered_commits) @ ''\<newline>\<newline>''"

definition estimate_token_count :: "string \<Rightarrow> nat" where
  "estimate_token_count text_in = length text_in div 4"

subsection \<open>Calling the judge\<close>

text \<open>
  The judge service takes the prompt and either returns a text (\<open>Inr\<close>) or raises, in
  which case \<open>Inl\<close> carries \<^verbatim>\<open>str(e)\<close>. Every exception raised inside the
  \<^verbatim>\<open>try\<close> block, by the service or by the parsing, reaches the same handler.
\<close>

definition handle_exception :: "string \<Rightarrow> int \<times> string \<times> pyfloat" where
  "handle_exception e =
     (if contains e ''context window'' \<or> contains e ''token''
      then (413, ''None'', Finite 0)
      else (500, ''None'', Finite 0))"

definition call_llm ::
  "(string \<Rightarrow> string + string) \<Rightarrow> evidence list \<Rightarrow> string \<Rightarrow> int \<times> string \<times> pyfloat" where
  "call_llm judge filtered_commits description =
     (let prompt = build_prompt filtered_commits description
      in case judge prompt of
           Inl e \<Rightarrow> handle_exception e
         | Inr answer \<Rightarrow>
             (case parse_answer (strip answer) of
                Inl e \<Rightarrow> handle_exception e
              | Inr r \<Rightarrow> r))"

text \<open>Two judges for examples: one that answers a fixed text, one that raises.\<close>

definition judge_returning :: "string \<Rightarrow> string \<Rightarrow> string + string" where
  "judge_returning answer prompt = Inr answer"

definition judge_raising :: "string \<Rightarrow> string \<Rightarrow> string + string" where
  "judge_raising msg prompt = Inl msg"

section \<open>Evidence collector\<close>

subsection \<open>The commit-history source\<close>

text \<open>
  A commit as the history endpoint delivers it, the parsed body of one page
  (\<^verbatim>\<open>data.get("values", [])\<close> and \<^verbatim>\<open>data.get("next")\<close>), and the response
  object of \<^verbatim>\<open>requests.get\<close>.
\<close>

record commit =
  commit_hash :: string
  commit_message :: string
  author_raw :: string

record page =
  page_values :: "commit list"
  page_next :: "string option"

record http_response =
  status_code :: int
  response_text :: string
  response_json :: page

text \<open>
  The two places that call \<^verbatim>\<open>requests.get\<close>, each with the URL and the
  Authorization header it sends. The transport answers a request knowing all requests
  made before it, so the same URL may be answered differently each time.
\<close>

datatype request = Page_request string string | Diff_request string string

type_synonym transport = "request list \<Rightarrow> string \<Rightarrow> string \<Rightarrow> http_response"

datatype py_error = IndexError

definition authorization :: "string \<Rightarrow> string" where
  "authorization repo_token = ''Bearer '' @ repo_token"

definition API_URL :: "string \<Rightarrow> string \<Rightarrow> string" where
  "API_URL workspace repo_slug =
     ''https://api.bitbucket.org/2.0/repositories/'' @ workspace @ ''/'' @ repo_slug @ ''/commits''"

definition diff_url :: "string \<Rightarrow> string \<Rightarrow> string \<Rightarrow> string" where
  "diff_url workspace repo_slug h =
     ''https://api.bitbucket.org/2.0/repositories/'' @ workspace @ ''/'' @ repo_slug @ ''/diff/'' @ h"

subsection \<open>The tag block\<close>

text \<open>
  \<^verbatim>\<open>re.compile(r"testcase\s*:\s*\[([^\]]+)\]", re.IGNORECASE)\<close>: the match anchored at
  the start of \<open>s\<close> gives group 1. Every piece of the pattern can match in one way only:
  white space is followed by a character that is none, and the run of characters other
  than the closing bracket must stop at a closing bracket.
\<close>

definition match_testcase :: "string \<Rightarrow> string option" where
  "match_testcase s =
     (if imatch ''testcase'' s
      then (case dropWhile is_space (drop 8 s) of
              [] \<Rightarrow> None
            | c1 # s1 \<Rightarrow>
                if c1 = CHR '':''
                then (case dropWhile is_space s1 of
                        [] \<Rightarrow> None
                      | c2 # s2 \<Rightarrow>
                          if c2 = CHR ''[''
                          then (let group1 = takeWhile (\<lambda>c. c \<noteq> CHR '']'') s2
                                in if group1 \<noteq> [] \<and> dropWhile (\<lambda>c. c \<noteq> CHR '']'') s2 \<noteq> []
                                   then Some group1 else None)
                          else None)
                else None)
      else None)"

text \<open>\<^verbatim>\<open>function_id_pattern.search(message)\<close>: the leftmost match.\<close>

fun search_testcase :: "string \<Rightarrow> string option" where
  "search_testcase [] = None"
| "search_testcase (c # cs) =
     (case match_testcase (c # cs) of
        Some group1 \<Rightarrow> Some group1
      | None \<Rightarrow> search_testcase cs)"

text \<open>\<^verbatim>\<open>[tc.strip() for tc in s.split(",")]\<close>, used for both lists of ids.\<close>

definition id_list :: "string \<Rightarrow> string list" where
  "id_list s = map strip (split (CHR '','') s)"

subsection \<open>One commit, one page, all pages\<close>

text \<open>
  Line 63: a diff request that does not succeed leaves the diff absent.
\<close>

definition diff_of_response :: "http_response \<Rightarrow> string option" where
  "diff_of_response diff_response =
     (if status_code diff_response = 200 then Some (response_text diff_response) else None)"

text \<open>
  Lines 65 to 72, the dictionary built for a matching commit. Its entries are evaluated
  in order; \<^verbatim>\<open>split("<")[1]\<close> raises IndexError when the split has one part only.
\<close>

definition commit_document ::
  "commit \<Rightarrow> string \<Rightarrow> string list \<Rightarrow> string list \<Rightarrow> string option \<Rightarrow> py_error + evidence" where
  "commit_document commit msg testcase_ids filter_ids diff =
     (case split (CHR ''<'') (author_raw commit) of
        part0 # part1 # parts \<Rightarrow>
          Inr \<lparr>hash = commit_hash commit,
               message = msg,
               author_username = strip part0,
               author_email = strip_chars ''>'' (strip part1),
               function_id = join '', '' (filter (\<lambda>fid. fid \<in> set filter_ids) testcase_ids),
               code_diff = diff\<rparr>
      | _ \<Rightarrow> Inl IndexError)"

text \<open>
  The body of the loop over the commits of a page (lines 50 to 73); \<open>function_ids\<close> is the
  caller's \<^verbatim>\<open>function_id\<close> argument, the requested ids separated by commas. The diff
  is requested before the document is built.
\<close>

definition process_commit ::
  "transport \<Rightarrow> string \<Rightarrow> string \<Rightarrow> string \<Rightarrow> string \<Rightarrow> commit \<Rightarrow> evidence list \<Rightarrow> request list
     \<Rightarrow> (py_error + evidence list) \<times> request list" where
  "process_commit get function_ids repo_slug repo_token workspace commit filtered_commits hist =
     (let msg = strip (commit_message commit)
      in case search_testcase msg of
           None \<Rightarrow> (Inr filtered_commits, hist)
         | Some group1 \<Rightarrow>
             (let testcase_ids = id_list group1;
                  filter_ids = id_list function_ids
              in if list_ex (\<lambda>fid. fid \<in> set testcase_ids) filter_ids
                 then (let url = diff_url workspace repo_slug (commit_hash commit);
                           diff_response = get hist url (authorization repo_token);
                           hist' = hist @ [Diff_request url (authorization repo_token)]
                       in case commit_document commit msg testcase_ids filter_ids
                                 (diff_of_response diff_response) of
                            Inl e \<Rightarrow> (Inl e, hist')
                          | Inr document \<Rightarrow> (Inr (filtered_commits @ [document]), hist'))
                 else (Inr filtered_commits, hist)))"

fun process_commits ::
  "transport \<Rightarrow> string \<Rightarrow> string \<Rightarrow> string \<Rightarrow> string \<Rightarrow> commit list \<Rightarrow> evidence list \<Rightarrow> request list
     \<Rightarrow> (py_error + evidence list) \<times> request list" where
  "process_commits get function_ids repo_slug repo_token workspace [] filtered_commits hist =
     (Inr filtered_commits, hist)"
| "process_commits get function_ids repo_slug repo_token workspace (c # cs) filtered_commits hist =
     (case process_commit get function_ids repo_slug repo_token workspace c filtered_commits hist of
        (Inl e, hist') \<Rightarrow> (Inl e, hist')
      | (Inr filtered_commits', hist') \<Rightarrow>
          process_commits get function_ids repo_slug repo_token workspace cs filtered_commits' hist')"

text \<open>Lines 76 to 79.\<close>

definition final_result :: "evidence list \<Rightarrow> int \<times> evidence list" where
  "final_result filtered_commits =
     (if filtered_commits \<noteq> [] then (200, filtered_commits) else (404, []))"

text \<open>
  \<^verbatim>\<open>while next_url:\<close> runs while the URL is neither \<^verbatim>\<open>None\<close> nor empty. The loop
  has no bound of its own, so the function is partial: \<open>None\<close> is a run that never
  returns.
\<close>

definition truthy :: "string option \<Rightarrow> bool" where
  "truthy next_url = (case next_url of None \<Rightarrow> False | Some u \<Rightarrow> u \<noteq> [])"

partial_function (option) paginate ::
  "transport \<Rightarrow> string \<Rightarrow> string \<Rightarrow> string \<Rightarrow> string \<Rightarrow> string option \<Rightarrow> bool \<Rightarrow> evidence list
     \<Rightarrow> request list \<Rightarrow> ((py_error + int \<times> evidence list) \<times> request list) option" where
  "paginate get function_ids repo_slug repo_token workspace next_url first_connection
     filtered_commits hist =
     (case next_url of
        None \<Rightarrow> Some (Inr (final_result filtered_commits), hist)
      | Some url \<Rightarrow>
          if url = [] then Some (Inr (final_result filtered_commits), hist)
          else (let response = get hist url (authorization repo_token);
                    hist1 = hist @ [Page_request url (authorization repo_token)]
                in if first_connection \<and> status_code response \<noteq> 200
                   then Some (Inr (status_code response, []), hist1)
                   else if status_code response = 200
                   then (case process_commits get function_ids repo_slug repo_token workspace
                                 (page_values (response_json response)) filtered_commits hist1 of
                           (Inl e, hist2) \<Rightarrow> Some (Inl e, hist2)
                         | (Inr filtered_commits', hist2) \<Rightarrow>
                             paginate get function_ids repo_slug repo_token workspace
                               (page_next (response_json response)) False filtered_commits' hist2)
                   else paginate get function_ids repo_slug repo_token workspace
                          None False filtered_commits hist1))"

definition get_commits ::
  "transport \<Rightarrow> string \<Rightarrow> string \<Rightarrow> string \<Rightarrow> string
     \<Rightarrow> ((py_error + int \<times> evidence list) \<times> request list) option" where
  "get_commits get function_ids repo_slug repo_token workspace =
     paginate get function_ids repo_slug repo_token workspace
       (Some (API_URL workspace repo_slug)) True [] []"

section \<open>Notions used in the properties\<close>

text \<open>
  A commit matches when its message holds a tag block and one of the requested ids is
  among the ids of that block: the two tests of lines 52 and 58.
\<close>

definition matches :: "string \<Rightarrow> commit \<Rightarrow> bool" where
  "matches function_ids c =
     (case search_testcase (strip (commit_message c)) of
        None \<Rightarrow> False
      | Some group1 \<Rightarrow> list_ex (\<lambda>fid. fid \<in> set (id_list group1)) (id_list function_ids))"

text \<open>
  The document the code builds for a commit when the answer to its diff request is
  \<open>diff_response\<close>.
\<close>

definition document_of :: "string \<Rightarrow> http_response \<Rightarrow> commit \<Rightarrow> py_error + evidence" where
  "document_of function_ids diff_response c =
     commit_document c (strip (commit_message c))
       (case search_testcase (strip (commit_message c)) of
          None \<Rightarrow> [] | Some group1 \<Rightarrow> id_list group1)
       (id_list function_ids) (diff_of_response diff_response)"

text \<open>
  The documents of the matching commits of \<open>cs\<close>, in the order of \<open>cs\<close>, when the source
  answers the diff request of each commit by its URL alone. A commit whose document
  cannot be built contributes none.
\<close>

definition documents ::
  "(string \<Rightarrow> string \<Rightarrow> http_response) \<Rightarrow> string \<Rightarrow> string \<Rightarrow> string \<Rightarrow> string \<Rightarrow> commit list
     \<Rightarrow> evidence list" where
  "documents srv function_ids repo_slug repo_token workspace cs =
     concat (map (\<lambda>c. case document_of function_ids
                               (srv (diff_url workspace repo_slug (commit_hash c))
                                    (authorization repo_token)) c of
                          Inl e \<Rightarrow> [] | Inr d \<Rightarrow> [d])
                 (filter (matches function_ids) cs))"

text \<open>The assumption of the spec on authors: every matching commit has a \<^verbatim>\<open><\<close>.\<close>

definition authors_ok :: "string \<Rightarrow> commit list \<Rightarrow> bool" where
  "authors_ok function_ids cs =
     list_all (\<lambda>c. matches function_ids c \<longrightarrow> CHR ''<'' \<in> set (author_raw c)) cs"

text \<open>
  A source whose answer depends on the URL and the header only, not on earlier requests,
  serves the pages \<open>ps\<close> from the URL \<open>u\<close> on: each page comes with status 200, and
  each page but the last names the URL of the next one.
\<close>

fun serves :: "(string \<Rightarrow> string \<Rightarrow> http_response) \<Rightarrow> string \<Rightarrow> string \<Rightarrow> page list \<Rightarrow> bool" where
  "serves srv auth u [] = True"
| "serves srv auth u [p] =
     (u \<noteq> [] \<and> status_code (srv u auth) = 200 \<and> response_json (srv u auth) = p)"
| "serves srv auth u (p # q # ps) =
     (u \<noteq> [] \<and> status_code (srv u auth) = 200 \<and> response_json (srv u auth) = p
      \<and> (case page_next p of None \<Rightarrow> False | Some u' \<Rightarrow> serves srv auth u' (q # ps)))"

text \<open>The requests a run over these pages makes: each page, then the diffs of its matches.\<close>

fun requests_for :: "string \<Rightarrow> string \<Rightarrow> string \<Rightarrow> string \<Rightarrow> string \<Rightarrow> page list \<Rightarrow> request list" where
  "requests_for function_ids repo_slug workspace auth u [] = []"
| "requests_for function_ids repo_slug workspace auth u (p # ps) =
     Page_request u auth
     # map (\<lambda>c. Diff_request (diff_url workspace repo_slug (commit_hash c)) auth)
         (filter (matches function_ids) (page_values p))
     @ requests_for function_ids repo_slug workspace auth
         (case page_next p of None \<Rightarrow> [] | Some u' \<Rightarrow> u') ps"

definition is_page_request :: "request \<Rightarrow> bool" where
  "is_page_request r = (case r of Page_request u a \<Rightarrow> True | Diff_request u a \<Rightarrow> False)"

text \<open>A source of that kind as a transport: the earlier requests are ignored.\<close>

definition stateless :: "(string \<Rightarrow> string \<Rightarrow> http_response) \<Rightarrow> transport" where
  "stateless srv hist = srv"

text \<open>
  The function id of a document is the intersection when it holds the requested ids of
  the document's own tag block, in the order of the block, joined by a comma and a space,
  and at least one of them.
\<close>

definition intersection_of :: "string \<Rightarrow> evidence \<Rightarrow> bool" where
  "intersection_of function_ids d =
     (case search_testcase (message d) of
        None \<Rightarrow> False
      | Some group1 \<Rightarrow>
          function_id d
            = join '', '' (filter (\<lambda>tc. tc \<in> set (id_list function_ids)) (id_list group1))
          \<and> filter (\<lambda>tc. tc \<in> set (id_list function_ids)) (id_list group1) \<noteq> [])"

text \<open>Two sources for examples: one answer for every request, and a table of URLs.\<close>

definition fixed_source :: "http_response \<Rightarrow> string \<Rightarrow> string \<Rightarrow> http_response" where
  "fixed_source r url auth = r"

definition table_source ::
  "(string \<times> http_response) list \<Rightarrow> http_response \<Rightarrow> string \<Rightarrow> string \<Rightarrow> http_response" where
  "table_source table otherwise url auth =
     (case map_of table url of None \<Rightarrow> otherwise | Some r \<Rightarrow> r)"

text \<open>Example data: three commits tagged in different ways, one with a broken author.\<close>

definition commit_a :: commit where
  "commit_a = \<lparr>commit_hash = ''a1'', commit_message = ''login form testcase: [TC1]'',
                author_raw = ''Jane Doe <jane@x.com>''\<rparr>"

definition commit_b :: commit where
  "commit_b = \<lparr>commit_hash = ''b2'', commit_message = ''update readme'',
                author_raw = ''Sam Roe <sam@x.com>''\<rparr>"

definition commit_c :: commit where
  "commit_c = \<lparr>commit_hash = ''c3'', commit_message = ''Testcase : [TC2, TC1] logout'',
                author_raw = ''Sam Roe <sam@x.com>''\<rparr>"

definition commit_bad :: commit where
  "commit_bad = \<lparr>commit_hash = ''d4'', commit_message = ''testcase: [TC1]'',
                  author_raw = ''jane''\<rparr>"

definition page_2_url :: string where
  "page_2_url = API_URL ''ws'' ''repo'' @ ''?page=2''"

definition diff_ok :: http_response where
  "diff_ok = \<lparr>status_code = 200, response_text = ''+ line'',
               response_json = \<lparr>page_values = [], page_next = None\<rparr>\<rparr>"

definition page_1 :: page where
  "page_1 = \<lparr>page_values = [commit_a, commit_b], page_next = Some page_2_url\<rparr>"

definition page_2 :: page where
  "page_2 = \<lparr>page_values = [commit_c], page_next = None\<rparr>"

definition two_pages :: "string \<Rightarrow> string \<Rightarrow> http_response" where
  "two_pages =
     table_source
       [(API_URL ''ws'' ''repo'', \<lparr>status_code = 200, response_text = [], response_json = page_1\<rparr>),
        (page_2_url, \<lparr>status_code = 200, response_text = [], response_json = page_2\<rparr>)]
       diff_ok"

definition second_page_fails :: "string \<Rightarrow> string \<Rightarrow> http_response" where
  "second_page_fails =
     table_source
       [(API_URL ''ws'' ''repo'', \<lparr>status_code = 200, response_text = [], response_json = page_1\<rparr>),
        (page_2_url, \<lparr>status_code = 503, response_text = [], response_json = page_2\<rparr>)]
       diff_ok"

definition broken_author_page :: "string \<Rightarrow> string \<Rightarrow> http_response" where
  "broken_author_page =
     table_source
       [(API_URL ''ws'' ''repo'',
         \<lparr>status_code = 200, response_text = [],
          response_json = \<lparr>page_values = [commit_a, commit_bad], page_next = None\<rparr>\<rparr>)]
       diff_ok"

definition commit_ab :: commit where
  "commit_ab = \<lparr>commit_hash = ''e5'', commit_message = ''testcase: [A, B]'',
                 author_raw = ''Jane Doe <jane@x.com>''\<rparr>"

definition ab_source :: "string \<Rightarrow> string \<Rightarrow> http_response" where
  "ab_source =
     fixed_source \<lparr>status_code = 200, response_text = ''+ line'',
                   response_json = \<lparr>page_values = [commit_ab, commit_b], page_next = None\<rparr>\<rparr>"

section \<open>Evaluation on concrete inputs\<close>

lemmas char_defs = code_def is_space_def is_decimal_def is_digit_char_def is_word_def
  lower_char_def lower_def char_of_def bit_Suc_0_iff

lemmas scan_defs = word_boundary_def imatch_def match_number_def match_token_def

lemmas parse_defs = parse_answer_def is_yes_no_def is_numeric_def isdigit_def py_float_def
  decimal_value_def digit_value_def py_int_raises_def strip_def

lemma small_below_bound: "n \<le> 1000000 \<Longrightarrow> n < float_overflow_bound"
  by (simp add: float_overflow_bound_def)

section \<open>Substrings\<close>

lemma startswith_iff: "startswith s sub \<longleftrightarrow> (\<exists>q. s = sub @ q)"
proof
  assume "startswith s sub"
  then have "s = sub @ drop (length sub) s"
    by (metis append_take_drop_id startswith_def)
  then show "\<exists>q. s = sub @ q" ..
next
  assume "\<exists>q. s = sub @ q"
  then show "startswith s sub" by (auto simp: startswith_def)
qed

text \<open>The test \<^verbatim>\<open>sub in s\<close> holds exactly when \<open>sub\<close> occurs somewhere in \<open>s\<close>.\<close>

lemma contains_iff: "contains s sub \<longleftrightarrow> (\<exists>p q. s = p @ sub @ q)"
proof (induction s)
  case Nil
  then show ?case by simp
next
  case (Cons c cs)
  show ?case
  proof
    assume "contains (c # cs) sub"
    then consider "startswith (c # cs) sub" | "contains cs sub" by auto
    then show "\<exists>p q. c # cs = p @ sub @ q"
    proof cases
      case 1
      then obtain q where "c # cs = [] @ sub @ q" by (auto simp: startswith_iff)
      then show ?thesis by blast
    next
      case 2
      then obtain p q where "cs = p @ sub @ q" using Cons.IH by blast
      then have "c # cs = (c # p) @ sub @ q" by simp
      then show ?thesis by blast
    qed
  next
    assume "\<exists>p q. c # cs = p @ sub @ q"
    then obtain p q where e: "c # cs = p @ sub @ q" by blast
    show "contains (c # cs) sub"
    proof (cases p)
      case Nil
      then have "startswith (c # cs) sub" using e by (auto simp: startswith_iff)
      then show ?thesis by simp
    next
      case (Cons a p')
      then have "cs = p' @ sub @ q" using e by simp
      then have "contains cs sub" using Cons.IH by blast
      then show ?thesis by simp
    qed
  qed
qed

section \<open>Properties of the verdict extractor\<close>

lemma find_progress_none:
  "\<forall>n \<in> set ns. \<not> is_yes_no n \<Longrightarrow> find_progress ns = ''None''"
  by (induction ns) auto

lemma num_values_none:
  "\<forall>n \<in> set ns. \<not> is_numeric n \<Longrightarrow> num_values ns = Inr []"
  by (induction ns) auto

lemma decimal_not_point: "is_decimal c \<Longrightarrow> c \<noteq> CHR ''.''"
  by (auto simp: is_decimal_def code_def)

lemma decimal_is_digit: "is_decimal c \<Longrightarrow> is_digit_char c"
  by (auto simp: is_decimal_def is_digit_char_def Let_def)

lemma remove_first_absent: "old \<notin> set s \<Longrightarrow> remove_first old s = s"
  by (induction s) auto

lemma remove_first_append: "old \<notin> set xs \<Longrightarrow> remove_first old (xs @ old # ys) = xs @ ys"
  by (induction xs) auto

text \<open>The two shapes of a number token: digits, or digits, a point and digits.\<close>

lemma whole_number_token:
  assumes "d1 \<noteq> []" "list_all is_decimal d1"
  shows "is_numeric d1" and "\<exists>x. py_float d1 = Inr x" and "\<not> is_yes_no d1"
proof -
  have np: "CHR ''.'' \<notin> set d1"
    using assms(2) decimal_not_point by (auto simp: list_all_iff)
  show "is_numeric d1"
    using assms np decimal_is_digit
    by (auto simp: is_numeric_def isdigit_def remove_first_absent list_all_iff)
  have sp: "takeWhile (\<lambda>c. c \<noteq> CHR ''.'') d1 = d1" "dropWhile (\<lambda>c. c \<noteq> CHR ''.'') d1 = []"
    using np by (auto simp: takeWhile_eq_all_conv)
  show "\<exists>x. py_float d1 = Inr x"
    unfolding py_float_def Let_def sp using assms by simp
  obtain c cs where "d1 = c # cs" "is_decimal c"
    using assms by (cases d1) auto
  then show "\<not> is_yes_no d1"
    by (auto simp: is_yes_no_def lower_def lower_char_def is_decimal_def code_def Let_def
        split: if_splits)
qed

lemma fraction_token:
  assumes "d1 \<noteq> []" "list_all is_decimal d1" "d2 \<noteq> []" "list_all is_decimal d2"
  shows "is_numeric (d1 @ CHR ''.'' # d2)" and "\<exists>x. py_float (d1 @ CHR ''.'' # d2) = Inr x"
    and "\<not> is_yes_no (d1 @ CHR ''.'' # d2)"
proof -
  have np0: "CHR ''.'' \<notin> set d1" "CHR ''.'' \<notin> set d2"
    using assms decimal_not_point by (auto simp: list_all_iff)
  then have np: "\<And>x. x \<in> set d1 \<Longrightarrow> x \<noteq> CHR ''.''"
    by auto
  show "is_numeric (d1 @ CHR ''.'' # d2)"
    using assms np0 decimal_is_digit
    by (auto simp: is_numeric_def isdigit_def remove_first_append list_all_iff)
  have sp: "takeWhile (\<lambda>c. c \<noteq> CHR ''.'') (d1 @ CHR ''.'' # d2) = d1"
    "dropWhile (\<lambda>c. c \<noteq> CHR ''.'') (d1 @ CHR ''.'' # d2) = CHR ''.'' # d2"
    using np by (simp_all add: takeWhile_append2 dropWhile_append2)
  show "\<exists>x. py_float (d1 @ CHR ''.'' # d2) = Inr x"
    unfolding py_float_def Let_def sp using assms by simp
  obtain c cs where "d1 = c # cs" "is_decimal c"
    using assms by (cases d1) auto
  then show "\<not> is_yes_no (d1 @ CHR ''.'' # d2)"
    by (auto simp: is_yes_no_def lower_def lower_char_def is_decimal_def code_def Let_def
        split: if_splits)
qed

lemma match_number_token:
  assumes "match_number s = Some (tok, rest)"
  shows "is_numeric tok \<and> (\<exists>x. py_float tok = Inr x) \<and> \<not> is_yes_no tok"
proof -
  let ?d1 = "takeWhile is_decimal s"
  have d1: "?d1 \<noteq> []" "list_all is_decimal ?d1"
    using assms by (auto simp: match_number_def Let_def list_all_iff dest: set_takeWhileD)
  have "tok = ?d1 \<or> (\<exists>r2. takeWhile is_decimal r2 \<noteq> [] \<and> tok = ?d1 @ CHR ''.'' # takeWhile is_decimal r2)"
    using assms d1 by (auto simp: match_number_def Let_def split: list.splits if_splits)
  then show ?thesis
  proof
    assume "tok = ?d1"
    then show ?thesis using whole_number_token [OF d1] by simp
  next
    assume "\<exists>r2. takeWhile is_decimal r2 \<noteq> [] \<and> tok = ?d1 @ CHR ''.'' # takeWhile is_decimal r2"
    then obtain r2 where r2: "takeWhile is_decimal r2 \<noteq> []"
      and tok: "tok = ?d1 @ CHR ''.'' # takeWhile is_decimal r2" by blast
    have "list_all is_decimal (takeWhile is_decimal r2)"
      by (auto simp: list_all_iff dest: set_takeWhileD)
    then show ?thesis using fraction_token [OF d1 r2] tok by simp
  qed
qed

lemma match_token_kind:
  assumes "match_token prev_word s = Some (tok, rest)"
  shows "(is_yes_no tok \<and> \<not> is_numeric tok)
       \<or> (is_numeric tok \<and> (\<exists>x. py_float tok = Inr x) \<and> \<not> is_yes_no tok)"
proof -
  consider (y) "imatch ''yes'' s" "tok = take 3 s" | (n) "imatch ''no'' s" "tok = take 2 s"
    | (d) "match_number s = Some (tok, rest)"
    using assms by (auto simp: match_token_def split: if_splits)
  then show ?thesis
  proof cases
    case y
    then have l: "lower tok = ''yes''" by (simp add: imatch_def numeral_3_eq_3)
    then have "length tok = 3" by (metis length_map lower_def length_Cons list.size(3) numeral_3_eq_3)
    then obtain a b c where t: "tok = [a, b, c]"
      by (metis length_0_conv length_Suc_conv numeral_3_eq_3)
    have "\<not> is_digit_char a" "a \<noteq> CHR ''.''" using l t
      by (auto simp: lower_def lower_char_def is_digit_char_def code_def Let_def split: if_splits)
    then have "\<not> is_numeric tok" using t
      by (auto simp: is_numeric_def isdigit_def split: if_splits)
    then show ?thesis using l by (simp add: is_yes_no_def)
  next
    case n
    then have l: "lower tok = ''no''" by (simp add: imatch_def numeral_2_eq_2)
    then have "length tok = 2" by (metis length_map lower_def length_Cons list.size(3) numeral_2_eq_2)
    then obtain a b where t: "tok = [a, b]"
      by (metis length_0_conv length_Suc_conv numeral_2_eq_2)
    have "\<not> is_digit_char a" "a \<noteq> CHR ''.''" using l t
      by (auto simp: lower_def lower_char_def is_digit_char_def code_def Let_def split: if_splits)
    then have "\<not> is_numeric tok" using t
      by (auto simp: is_numeric_def isdigit_def split: if_splits)
    then show ?thesis using l by (simp add: is_yes_no_def)
  next
    case d
    then show ?thesis using match_number_token by blast
  qed
qed

lemma findall_token_kind:
  "n \<in> set (findall prev_word s) \<Longrightarrow>
     (is_yes_no n \<and> \<not> is_numeric n)
     \<or> (is_numeric n \<and> (\<exists>x. py_float n = Inr x) \<and> \<not> is_yes_no n)"
proof (induction prev_word s rule: findall.induct)
  case (1 prev_word)
  then show ?case by simp
next
  case (2 prev_word c cs)
  show ?case
  proof (cases "match_token prev_word (c # cs)")
    case None
    then show ?thesis using 2(1,3) by simp
  next
    case (Some p)
    obtain tok rest where p: "p = (tok, rest)" by (cases p)
    from 2(3) Some p have "n = tok \<or> n \<in> set (findall True rest)" by simp
    then show ?thesis
    proof
      assume "n = tok"
      then show ?thesis using match_token_kind Some p by blast
    next
      assume "n \<in> set (findall True rest)"
      then show ?thesis using 2(2) [OF Some [unfolded p] refl] by simp
    qed
  qed
qed

lemma find_progress_first:
  "find_progress ns = (case filter is_yes_no ns of [] \<Rightarrow> ''None'' | n # _ \<Rightarrow> lower n)"
  by (induction ns) auto

lemma num_values_map:
  "\<forall>n \<in> set ns. is_numeric n \<longrightarrow> py_float n = Inr (f n) \<Longrightarrow>
     num_values ns = Inr (map f (filter is_numeric ns))"
  by (induction ns) auto

lemma num_values_findall:
  "num_values (findall prev_word s)
     = Inr (map (\<lambda>n. projr (py_float n)) (filter is_numeric (findall prev_word s)))"
proof (rule num_values_map, intro ballI impI)
  fix n
  assume "n \<in> set (findall prev_word s)" "is_numeric n"
  then obtain x where "py_float n = Inr x"
    using findall_token_kind by blast
  then show "py_float n = Inr (projr (py_float n))" by simp
qed

text \<open>
  First match wins, per category: the alignment is the first yes/no token in lower case,
  the hours are the first numeric token, and the order of the two categories does not
  matter. The second numeric token must be a finite float for the call to get that far.
\<close>

lemma parse_answer_first_match:
  assumes "case filter is_numeric (findall False ans) of
             n # m # ms \<Rightarrow> py_float m \<noteq> Inr Infinity | _ \<Rightarrow> True"
  shows "parse_answer ans =
           Inr (200,
                (case filter is_yes_no (findall False ans) of [] \<Rightarrow> ''None'' | n # ns \<Rightarrow> lower n),
                (case filter is_numeric (findall False ans) of
                   [] \<Rightarrow> Finite 0 | n # ns \<Rightarrow> projr (py_float n)))"
proof (cases "findall False ans = []")
  case True
  then show ?thesis by (simp add: parse_answer_def)
next
  case False
  let ?nums = "filter is_numeric (findall False ans)"
  have v: "num_values (findall False ans) = Inr (map (\<lambda>n. projr (py_float n)) ?nums)"
    by (rule num_values_findall)
  show ?thesis
  proof (cases ?nums)
    case Nil
    then show ?thesis
      using False v by (simp add: parse_answer_def Let_def find_progress_first)
  next
    case (Cons n ns)
    note outer = Cons
    show ?thesis
    proof (cases ns)
      case Nil
      then show ?thesis
        using False v outer by (simp add: parse_answer_def Let_def find_progress_first)
    next
      case (Cons m ms)
      have "m \<in> set (filter is_numeric (findall False ans))"
        using outer Cons by simp
      then have "m \<in> set (findall False ans)" "is_numeric m"
        by simp_all
      then obtain x where x: "py_float m = Inr x"
        using findall_token_kind by blast
      then have "x \<noteq> Infinity" using assms outer Cons by simp
      then have "py_int_raises (projr (py_float m)) = None"
        using x by (cases x) (simp_all add: py_int_raises_def)
      then show ?thesis
        using False v outer Cons by (simp add: parse_answer_def Let_def find_progress_first)
    qed
  qed
qed

text \<open>
  C6. When the judge service raises, the outcome is decided by the text of the error
  alone: status 413 when the text contains \<^verbatim>\<open>context window\<close> or \<^verbatim>\<open>token\<close>, status
  500 for every other error; in both cases the alignment is the sentinel \<^verbatim>\<open>None\<close> and
  the hours are 0. No third outcome exists.
\<close>

theorem judge_error_outcome:
  assumes "judge (build_prompt filtered_commits description) = Inl e"
  shows "call_llm judge filtered_commits description =
           (if (\<exists>p q. e = p @ ''context window'' @ q) \<or> (\<exists>p q. e = p @ ''token'' @ q)
            then (413, ''None'', Finite 0) else (500, ''None'', Finite 0))"
  using assms by (simp add: call_llm_def handle_exception_def contains_iff)

theorem judge_error_outcome_witness:
  "call_llm (judge_raising ''429 input token limit exceeded'') [] ''add login page''
     = (413, ''None'', Finite 0)
   \<and> call_llm (judge_raising ''503 service unavailable'') [] ''add login page''
     = (500, ''None'', Finite 0)"
proof -
  have a: "judge_raising ''429 input token limit exceeded'' (build_prompt [] ''add login page'')
             = Inl ''429 input token limit exceeded''"
    by (simp add: judge_raising_def)
  have b: "judge_raising ''503 service unavailable'' (build_prompt [] ''add login page'')
             = Inl ''503 service unavailable''"
    by (simp add: judge_raising_def)
  have c: "contains ''429 input token limit exceeded'' ''token''"
    by (simp add: startswith_def)
  have d: "\<not> contains ''503 service unavailable'' ''token''"
          "\<not> contains ''503 service unavailable'' ''context window''"
    by (simp_all add: startswith_def)
  show ?thesis
    using judge_error_outcome [where judge = "judge_raising ''429 input token limit exceeded''"
            and filtered_commits = "[]" and description = "''add login page''", OF a]
          judge_error_outcome [where judge = "judge_raising ''503 service unavailable''"
            and filtered_commits = "[]" and description = "''add login page''", OF b] c d
    by (simp only: contains_iff [symmetric] if_True if_False simp_thms)
qed

text \<open>
  C7. When the judge answers and the scan of the answer finds neither a yes/no token nor
  a numeric token, the call succeeds with status 200, the alignment sentinel \<^verbatim>\<open>None\<close>
  and 0 hours: a parse miss is no service failure.
\<close>

theorem parse_miss_is_success:
  assumes "judge (build_prompt filtered_commits description) = Inr answer"
      and "\<forall>n \<in> set (findall False (strip answer)). \<not> is_yes_no n \<and> \<not> is_numeric n"
  shows "call_llm judge filtered_commits description = (200, ''None'', Finite 0)"
proof -
  let ?numbers = "findall False (strip answer)"
  have p: "find_progress ?numbers = ''None''"
    using assms(2) by (intro find_progress_none) blast
  have v: "num_values ?numbers = Inr []"
    using assms(2) by (intro num_values_none) blast
  have "parse_answer (strip answer) = Inr (200, ''None'', Finite 0)"
    using p v by (simp add: parse_answer_def Let_def)
  then show ?thesis using assms(1) by (simp add: call_llm_def)
qed

theorem parse_miss_is_success_witness:
  "call_llm (judge_returning ''I cannot judge this, yesterday 12abc.'') [] ''add login page''
     = (200, ''None'', Finite 0)"
proof -
  have a: "judge_returning ''I cannot judge this, yesterday 12abc.''
             (build_prompt [] ''add login page'') = Inr ''I cannot judge this, yesterday 12abc.''"
    by (simp add: judge_returning_def)
  have b: "findall False (strip ''I cannot judge this, yesterday 12abc.'') = []"
    by (simp add: char_defs scan_defs strip_def)
  show ?thesis
    using parse_miss_is_success
            [where judge = "judge_returning ''I cannot judge this, yesterday 12abc.''"
               and filtered_commits = "[]" and description = "''add login page''", OF a] b
    by simp
qed

text \<open>
  C1, as stated: the hours are 0 whenever the alignment is the sentinel \<^verbatim>\<open>None\<close>. The
  answer \<^verbatim>\<open>8\<close> holds a number and no yes/no token; the alignment stays \<^verbatim>\<open>None\<close>
  and the hours are 8.
\<close>

theorem none_alignment_with_hours:
  "call_llm (judge_returning ''8'') [] ''add login page'' = (200, ''None'', Finite 8)"
  by (simp add: call_llm_def judge_returning_def char_defs scan_defs parse_defs small_below_bound)

text \<open>
  C1, amended. When the judge answers and the scan finds no yes/no token, the call
  returns status 200 with the alignment sentinel \<^verbatim>\<open>None\<close>, and the hours are the first
  numeric token of the answer, and 0 when the answer holds no numeric token.
  (A second numeric token, if there is one, is assumed to be a finite float.)
\<close>

theorem none_alignment_hours:
  assumes "judge (build_prompt filtered_commits description) = Inr answer"
      and "\<forall>n \<in> set (findall False (strip answer)). \<not> is_yes_no n"
      and "case filter is_numeric (findall False (strip answer)) of
             n # m # ms \<Rightarrow> py_float m \<noteq> Inr Infinity | _ \<Rightarrow> True"
  shows "\<exists>h. call_llm judge filtered_commits description = (200, ''None'', h)
           \<and> (case filter is_numeric (findall False (strip answer)) of
                 [] \<Rightarrow> h = Finite 0 | n # ns \<Rightarrow> py_float n = Inr h)"
proof -
  let ?toks = "findall False (strip answer)"
  let ?nums = "filter is_numeric ?toks"
  let ?h = "case ?nums of [] \<Rightarrow> Finite 0 | n # ns \<Rightarrow> projr (py_float n)"
  have "filter is_yes_no ?toks = []"
    using assms(2) by (simp add: filter_empty_conv)
  then have p: "parse_answer (strip answer) = Inr (200, ''None'', ?h)"
    using parse_answer_first_match [OF assms(3)] by simp
  have c: "call_llm judge filtered_commits description = (200, ''None'', ?h)"
    using assms(1) p by (simp add: call_llm_def)
  have "case ?nums of [] \<Rightarrow> ?h = Finite 0 | n # ns \<Rightarrow> py_float n = Inr ?h"
  proof (cases ?nums)
    case Nil
    then show ?thesis by simp
  next
    case (Cons n ns)
    then have "n \<in> set ?nums" by simp
    then have "n \<in> set ?toks" "is_numeric n" by simp_all
    then obtain x where "py_float n = Inr x"
      using findall_token_kind by blast
    then show ?thesis using Cons by simp
  qed
  then show ?thesis using c by blast
qed

theorem none_alignment_hours_witness:
  "call_llm (judge_returning ''Roughly 12.5 hours of work.'') [] ''add login page''
     = (200, ''None'', Finite (25 / 2))"
proof -
  let ?a = "''Roughly 12.5 hours of work.''"
  have a: "judge_returning ?a (build_prompt [] ''add login page'') = Inr ?a"
    by (simp add: judge_returning_def)
  have t: "findall False (strip ?a) = [''12.5'']"
    by (simp add: char_defs scan_defs strip_def)
  have n: "is_numeric ''12.5''" "\<not> is_yes_no ''12.5''"
    by (simp_all add: is_numeric_def is_yes_no_def isdigit_def char_defs)
  have f: "py_float ''12.5'' = Inr (Finite (25 / 2))"
    by (simp add: py_float_def decimal_value_def digit_value_def char_defs small_below_bound)
  have h2: "\<forall>n \<in> set (findall False (strip ?a)). \<not> is_yes_no n"
    using n by (simp add: t)
  have h3: "case filter is_numeric (findall False (strip ?a)) of
              n # m # ms \<Rightarrow> py_float m \<noteq> Inr Infinity | _ \<Rightarrow> True"
    using n by (simp add: t)
  show ?thesis
    using none_alignment_hours [where judge = "judge_returning ?a" and filtered_commits = "[]"
        and description = "''add login page''", OF a h2 h3] n f
    by (auto simp add: t)
qed

lemma float_overflow_bound_le: "float_overflow_bound \<le> 10 ^ 309"
  by (simp add: float_overflow_bound_def)

lemma foldl_decimal_zeros:
  "foldl (\<lambda>a d. 10 * a + digit_value d) a (replicate n (CHR ''0'')) = a * 10 ^ n"
  by (induction n arbitrary: a) (simp_all add: digit_value_def code_def)

lemma answer_no_8_450:
  "call_llm (judge_returning ''no, 8, 450'') [] ''add login page'' = (200, ''no'', Finite 8)"
  "call_llm (judge_returning ''8, no, 450'') [] ''add login page'' = (200, ''no'', Finite 8)"
  by (simp_all add: call_llm_def judge_returning_def char_defs scan_defs parse_defs
      small_below_bound)

text \<open>
  C3. The first yes/no token and the first numeric token decide the verdict and a
  second numeric token is never returned (lemma \<open>parse_answer_first_match\<close>), as long as
  that second token is a finite float. On the answer \<^verbatim>\<open>no, 8, 1000...0\<close> with 309
  zeros the conversion of the second number to an integer raises OverflowError inside the
  \<^verbatim>\<open>try\<close> block, and the call returns status 500 with alignment \<^verbatim>\<open>None\<close> and 0
  hours instead of \<^verbatim>\<open>no\<close> and 8.
\<close>

theorem second_number_overflow:
  "call_llm (judge_returning (''no, 8, 1'' @ replicate 309 (CHR ''0''))) [] ''add login page''
     = (500, ''None'', Finite 0)"
proof -
  let ?big = "CHR ''1'' # replicate 309 (CHR ''0'')"
  have s: "strip (''no, 8, 1'' @ replicate 309 (CHR ''0'')) = ''no, 8, '' @ ?big"
    by (simp add: strip_def char_defs dropWhile_append3)
  have t: "findall False (''no, 8, '' @ ?big) = [''no'', ''8'', ?big]"
    by (simp add: char_defs scan_defs takeWhile_replicate dropWhile_replicate)
  have f8: "py_float ''8'' = Inr (Finite 8)"
    by (simp add: py_float_def char_defs decimal_value_def digit_value_def small_below_bound)
  have dv: "decimal_value ?big = 10 ^ 309"
    unfolding decimal_value_def foldl_Cons foldl_decimal_zeros
    by (simp add: digit_value_def code_def)
  have sp: "takeWhile (\<lambda>c. c \<noteq> CHR ''.'') ?big = ?big"
           "dropWhile (\<lambda>c. c \<noteq> CHR ''.'') ?big = []"
    by (simp_all add: takeWhile_replicate dropWhile_replicate)
  have dec: "list_all is_decimal ?big"
    by (simp add: list_all_iff is_decimal_def code_def)
  have fb: "py_float ?big = Inr Infinity"
    unfolding py_float_def sp Let_def using float_overflow_bound_le dec by (simp add: dv)
  have d: "is_numeric ?big" "is_numeric ''8''" "\<not> is_numeric ''no''"
    by (simp_all add: is_numeric_def remove_first_absent isdigit_def list_all_iff char_defs)
  have n: "num_values [''no'', ''8'', ?big] = Inr [Finite 8, Infinity]"
    by (simp only: num_values.simps d f8 fb if_True if_False sum.case)
  have pa: "parse_answer (''no, 8, '' @ ?big) = Inl ''cannot convert float infinity to integer''"
    unfolding parse_answer_def Let_def t n by (simp add: py_int_raises_def)
  have p: "parse_answer (strip (''no, 8, 1'' @ replicate 309 (CHR ''0'')))
             = Inl ''cannot convert float infinity to integer''"
    by (simp only: s pa)
  have h: "handle_exception ''cannot convert float infinity to integer'' = (500, ''None'', Finite 0)"
    by (simp add: handle_exception_def startswith_def)
  show ?thesis
    by (simp only: call_llm_def judge_returning_def Let_def sum.case p h)
qed

section \<open>Properties of the string helpers\<close>

lemma split_nonempty: "split sep s \<noteq> []"
  by (induction s) (auto split: list.splits)

lemma split_absent: "sep \<notin> set s \<Longrightarrow> split sep s = [s]"
  by (induction s) auto


lemma split_present: "sep \<in> set s \<Longrightarrow> \<exists>a b rest. split sep s = a # b # rest"
proof (induction s)
  case Nil
  then show ?case by simp
next
  case (Cons c cs)
  show ?case
  proof (cases "c = sep")
    case True
    obtain x xs where "split sep cs = x # xs"
      using split_nonempty by (cases "split sep cs") auto
    then show ?thesis using True by simp
  next
    case False
    then have "sep \<in> set cs" using Cons.prems by simp
    then obtain a b rest where "split sep cs = a # b # rest" using Cons.IH by blast
    then show ?thesis using False by simp
  qed
qed





section \<open>Properties of the evidence collector\<close>





lemma document_of_raises:
  "CHR ''<'' \<notin> set (author_raw c) \<Longrightarrow> document_of function_ids r c = Inl IndexError"
  by (simp add: document_of_def commit_document_def split_absent)

lemma document_of_builds:
  "CHR ''<'' \<in> set (author_raw c) \<Longrightarrow> \<exists>d. document_of function_ids r c = Inr d"
  using split_present [of "CHR ''<''" "author_raw c"]
  by (auto simp: document_of_def commit_document_def)

lemma process_commit_eq:
  "process_commit get function_ids repo_slug repo_token workspace c filtered_commits hist =
     (if matches function_ids c
      then (case document_of function_ids
                   (get hist (diff_url workspace repo_slug (commit_hash c)) (authorization repo_token)) c of
              Inl e \<Rightarrow> (Inl e, hist @ [Diff_request (diff_url workspace repo_slug (commit_hash c))
                                        (authorization repo_token)])
            | Inr d \<Rightarrow> (Inr (filtered_commits @ [d]),
                        hist @ [Diff_request (diff_url workspace repo_slug (commit_hash c))
                                  (authorization repo_token)]))
      else (Inr filtered_commits, hist))"
  by (simp add: process_commit_def matches_def document_of_def Let_def split: option.splits)


lemma documents_append:
  "documents srv f s t w (xs @ ys) = documents srv f s t w xs @ documents srv f s t w ys"
  by (simp add: documents_def)

lemma documents_Cons:
  "documents srv f s t w (c # cs) =
     (if matches f c
      then (case document_of f (srv (diff_url w s (commit_hash c)) (authorization t)) c of
              Inl e \<Rightarrow> [] | Inr d \<Rightarrow> [d]) @ documents srv f s t w cs
      else documents srv f s t w cs)"
  by (simp add: documents_def)

text \<open>One page against a source that looks at the URL only, all authors well formed.\<close>

lemma process_commits_pure:
  assumes "authors_ok f cs"
  shows "process_commits (\<lambda>h. srv) f s t w cs fc hist =
           (Inr (fc @ documents srv f s t w cs),
            hist @ map (\<lambda>c. Diff_request (diff_url w s (commit_hash c)) (authorization t))
                     (filter (matches f) cs))"
  using assms
proof (induction cs arbitrary: fc hist)
  case Nil
  then show ?case by (simp add: documents_def)
next
  case (Cons c cs)
  then have ok: "authors_ok f cs" by (simp add: authors_ok_def)
  show ?case
  proof (cases "matches f c")
    case False
    then show ?thesis
      using Cons.IH [OF ok] by (simp add: process_commit_eq documents_Cons)
  next
    case True
    then have "CHR ''<'' \<in> set (author_raw c)"
      using Cons.prems by (simp add: authors_ok_def)
    then obtain d where d: "document_of f (srv (diff_url w s (commit_hash c)) (authorization t)) c = Inr d"
      using document_of_builds by blast
    show ?thesis
      using True d Cons.IH [OF ok] by (simp add: process_commit_eq documents_Cons)
  qed
qed

text \<open>One page against any source: it raises exactly when a matching commit has no \<^verbatim>\<open><\<close>.\<close>

lemma process_commits_ok:
  assumes "authors_ok f cs"
  shows "\<exists>fc' h. process_commits get f s t w cs fc hist = (Inr fc', h)"
  using assms
proof (induction cs arbitrary: fc hist)
  case Nil
  then show ?case by simp
next
  case (Cons c cs)
  then have ok: "authors_ok f cs" by (simp add: authors_ok_def)
  show ?case
  proof (cases "matches f c")
    case False
    then show ?thesis
      using Cons.IH [OF ok] by (simp add: process_commit_eq)
  next
    case True
    then have "CHR ''<'' \<in> set (author_raw c)"
      using Cons.prems by (simp add: authors_ok_def)
    then obtain d where
      "document_of f (get hist (diff_url w s (commit_hash c)) (authorization t)) c = Inr d"
      using document_of_builds by blast
    then show ?thesis
      using True Cons.IH [OF ok] by (simp add: process_commit_eq)
  qed
qed

lemma process_commits_raises:
  assumes "\<not> authors_ok f cs"
  shows "\<exists>h. process_commits get f s t w cs fc hist = (Inl IndexError, h)"
  using assms
proof (induction cs arbitrary: fc hist)
  case Nil
  then show ?case by (simp add: authors_ok_def)
next
  case (Cons c cs)
  show ?case
  proof (cases "matches f c")
    case False
    then have "\<not> authors_ok f cs" using Cons.prems by (simp add: authors_ok_def)
    then show ?thesis
      using False Cons.IH by (simp add: process_commit_eq)
  next
    case True
    show ?thesis
    proof (cases "CHR ''<'' \<in> set (author_raw c)")
      case False
      then show ?thesis
        using True by (simp add: process_commit_eq document_of_raises)
    next
      case yes: True
      then have "\<not> authors_ok f cs" using Cons.prems by (simp add: authors_ok_def)
      moreover obtain d where
        "document_of f (get hist (diff_url w s (commit_hash c)) (authorization t)) c = Inr d"
        using yes document_of_builds by blast
      ultimately show ?thesis
        using True Cons.IH by (simp add: process_commit_eq)
    qed
  qed
qed

text \<open>The loop, one step at a time.\<close>

lemma paginate_stop:
  "\<not> truthy next_url \<Longrightarrow>
     paginate get f s t w next_url first fc hist = Some (Inr (final_result fc), hist)"
  by (subst paginate.simps) (auto simp: truthy_def split: option.splits)

lemma paginate_first_failure:
  assumes "u \<noteq> []" "status_code (get hist u (authorization t)) \<noteq> 200"
  shows "paginate get f s t w (Some u) True fc hist =
           Some (Inr (status_code (get hist u (authorization t)), []),
                 hist @ [Page_request u (authorization t)])"
  using assms by (subst paginate.simps) (simp add: Let_def)

lemma paginate_later_failure:
  assumes "u \<noteq> []" "status_code (get hist u (authorization t)) \<noteq> 200"
  shows "paginate get f s t w (Some u) False fc hist =
           Some (Inr (final_result fc), hist @ [Page_request u (authorization t)])"
proof -
  have "paginate get f s t w (Some u) False fc hist =
          paginate get f s t w None False fc (hist @ [Page_request u (authorization t)])"
    using assms by (subst paginate.simps) (simp add: Let_def)
  then show ?thesis by (simp add: paginate_stop truthy_def)
qed

lemma paginate_page:
  assumes "u \<noteq> []" "status_code (srv u (authorization t)) = 200"
      and "authors_ok f (page_values (response_json (srv u (authorization t))))"
  shows "paginate (\<lambda>h. srv) f s t w (Some u) first fc hist =
           paginate (\<lambda>h. srv) f s t w (page_next (response_json (srv u (authorization t)))) False
             (fc @ documents srv f s t w (page_values (response_json (srv u (authorization t)))))
             (hist @ Page_request u (authorization t)
                # map (\<lambda>c. Diff_request (diff_url w s (commit_hash c)) (authorization t))
                    (filter (matches f) (page_values (response_json (srv u (authorization t))))))"
  using assms
  by (subst paginate.simps) (simp add: Let_def process_commits_pure)

text \<open>The loop over a chain of pages served with success.\<close>

lemma paginate_pages:
  assumes "serves srv (authorization t) u ps" "ps \<noteq> []"
      and "\<forall>p \<in> set ps. authors_ok f (page_values p)"
  shows "paginate (\<lambda>h. srv) f s t w (Some u) first fc hist =
           paginate (\<lambda>h. srv) f s t w (page_next (last ps)) False
             (fc @ documents srv f s t w (concat (map page_values ps)))
             (hist @ requests_for f s w (authorization t) u ps)"
  using assms
proof (induction ps arbitrary: u first fc hist)
  case Nil
  then show ?case by simp
next
  case (Cons p ps)
  show ?case
  proof (cases ps)
    case Nil
    then show ?thesis
      using Cons.prems paginate_page [of u srv t f s w first fc hist] by simp
  next
    case (Cons q qs)
    from Cons.prems(1) Cons obtain u' where u': "page_next p = Some u'"
      and rest: "serves srv (authorization t) u' ps"
      and here: "u \<noteq> []" "status_code (srv u (authorization t)) = 200"
                "response_json (srv u (authorization t)) = p"
      by (auto split: option.splits)
    have ok: "authors_ok f (page_values p)" "\<forall>p \<in> set ps. authors_ok f (page_values p)"
      using Cons.prems(3) by simp_all
    have ne: "ps \<noteq> []" using Cons by simp
    have step: "paginate (\<lambda>h. srv) f s t w (Some u) first fc hist =
             paginate (\<lambda>h. srv) f s t w (Some u') False
               (fc @ documents srv f s t w (page_values p))
               (hist @ Page_request u (authorization t)
                  # map (\<lambda>c. Diff_request (diff_url w s (commit_hash c)) (authorization t))
                      (filter (matches f) (page_values p)))"
      using paginate_page [of u srv t f s w first fc hist] here ok(1) u' by simp
    show ?thesis
      unfolding step
      using Cons.IH [OF rest ne ok(2)] u' ne
      by (simp add: documents_append)
  qed
qed

lemma stateless_eq: "stateless srv = (\<lambda>h. srv)"
  by (rule ext) (simp add: stateless_def)

lemma API_URL_nonempty: "API_URL w s \<noteq> []"
  by (simp add: API_URL_def)

lemma page_requests_count:
  "length (filter is_page_request (requests_for f s w a u ps)) = length ps"
  by (induction ps arbitrary: u) (simp_all add: is_page_request_def filter_map comp_def)

lemma documents_hashes:
  "authors_ok f cs \<Longrightarrow>
     map hash (documents srv f s t w cs) = map commit_hash (filter (matches f) cs)"
proof (induction cs)
  case Nil
  then show ?case by (simp add: documents_def)
next
  case (Cons c cs)
  then have ok: "authors_ok f cs" by (simp add: authors_ok_def)
  show ?case
  proof (cases "matches f c")
    case False
    then show ?thesis using Cons.IH [OF ok] by (simp add: documents_Cons)
  next
    case True
    then have "CHR ''<'' \<in> set (author_raw c)"
      using Cons.prems by (simp add: authors_ok_def)
    then obtain d where d: "document_of f (srv (diff_url w s (commit_hash c)) (authorization t)) c = Inr d"
      using document_of_builds by blast
    then have "hash d = commit_hash c"
      by (auto simp: document_of_def commit_document_def split: list.splits)
    then show ?thesis using True d Cons.IH [OF ok] by (simp add: documents_Cons)
  qed
qed

lemma authors_ok_concat:
  "\<forall>p \<in> set ps. authors_ok f (page_values p) \<Longrightarrow> authors_ok f (concat (map page_values ps))"
  by (induction ps) (simp_all add: authors_ok_def)

lemma paginate_raises:
  assumes "serves srv (authorization t) u ps"
      and "\<exists>p \<in> set ps. \<not> authors_ok f (page_values p)"
  shows "\<exists>h. paginate (\<lambda>h. srv) f s t w (Some u) first fc hist = Some (Inl IndexError, h)"
  using assms
proof (induction ps arbitrary: u first fc hist)
  case Nil
  then show ?case by simp
next
  case (Cons p ps)
  have here: "u \<noteq> []" "status_code (srv u (authorization t)) = 200"
             "response_json (srv u (authorization t)) = p"
    using Cons.prems(1) by (cases ps; simp)+
  show ?case
  proof (cases "authors_ok f (page_values p)")
    case False
    then obtain h where
      "process_commits (\<lambda>h. srv) f s t w (page_values p) fc
         (hist @ [Page_request u (authorization t)]) = (Inl IndexError, h)"
      using process_commits_raises by blast
    then show ?thesis
      using here by (subst paginate.simps) (simp add: Let_def)
  next
    case True
    then have later: "\<exists>p \<in> set ps. \<not> authors_ok f (page_values p)"
      using Cons.prems(2) by auto
    then obtain q qs where ps: "ps = q # qs" by (cases ps) auto
    then obtain u' where u': "page_next p = Some u'"
      and rest: "serves srv (authorization t) u' ps"
      using Cons.prems(1) by (auto split: option.splits)
    have "paginate (\<lambda>h. srv) f s t w (Some u) first fc hist =
            paginate (\<lambda>h. srv) f s t w (Some u') False
              (fc @ documents srv f s t w (page_values p))
              (hist @ Page_request u (authorization t)
                 # map (\<lambda>c. Diff_request (diff_url w s (commit_hash c)) (authorization t))
                     (filter (matches f) (page_values p)))"
      using paginate_page [of u srv t f s w first fc hist] here True u' by simp
    then show ?thesis
      using Cons.IH [OF rest later] by simp
  qed
qed

subsection \<open>Example data, evaluated\<close>

lemmas tag_defs = matches_def match_testcase_def imatch_def id_list_def strip_def
  code_def is_space_def lower_char_def lower_def char_of_def bit_Suc_0_iff

lemma example_matches:
  "matches ''TC1'' commit_a" "\<not> matches ''TC1'' commit_b" "matches ''TC1'' commit_c"
  "matches ''TC1'' commit_bad"
  by (simp_all add: commit_a_def commit_b_def commit_c_def commit_bad_def tag_defs)

lemma example_documents:
  "document_of ''TC1'' diff_ok commit_a =
     Inr \<lparr>hash = ''a1'', message = ''login form testcase: [TC1]'',
          author_username = ''Jane Doe'', author_email = ''jane@x.com'',
          function_id = ''TC1'', code_diff = Some ''+ line''\<rparr>"
  "document_of ''TC1'' diff_ok commit_c =
     Inr \<lparr>hash = ''c3'', message = ''Testcase : [TC2, TC1] logout'',
          author_username = ''Sam Roe'', author_email = ''sam@x.com'',
          function_id = ''TC1'', code_diff = Some ''+ line''\<rparr>"
  by (simp_all add: document_of_def commit_document_def diff_of_response_def diff_ok_def
      commit_a_def commit_c_def strip_chars_def tag_defs)

lemma example_urls:
  "page_2_url \<noteq> API_URL ''ws'' ''repo''" "page_2_url \<noteq> []"
  "diff_url ''ws'' ''repo'' ''a1'' \<noteq> API_URL ''ws'' ''repo''"
  "diff_url ''ws'' ''repo'' ''a1'' \<noteq> page_2_url"
  "diff_url ''ws'' ''repo'' ''c3'' \<noteq> API_URL ''ws'' ''repo''"
  "diff_url ''ws'' ''repo'' ''c3'' \<noteq> page_2_url"
  by (simp_all add: page_2_url_def API_URL_def diff_url_def)

lemma two_pages_lookup:
  "two_pages (API_URL ''ws'' ''repo'') a
     = \<lparr>status_code = 200, response_text = [], response_json = page_1\<rparr>"
  "two_pages page_2_url a
     = \<lparr>status_code = 200, response_text = [], response_json = page_2\<rparr>"
  "two_pages (diff_url ''ws'' ''repo'' ''a1'') a = diff_ok"
  "two_pages (diff_url ''ws'' ''repo'' ''c3'') a = diff_ok"
  using example_urls by (simp_all add: two_pages_def table_source_def)

lemma second_page_fails_lookup:
  "second_page_fails (API_URL ''ws'' ''repo'') a
     = \<lparr>status_code = 200, response_text = [], response_json = page_1\<rparr>"
  "second_page_fails page_2_url a
     = \<lparr>status_code = 503, response_text = [], response_json = page_2\<rparr>"
  "second_page_fails (diff_url ''ws'' ''repo'' ''a1'') a = diff_ok"
  using example_urls by (simp_all add: second_page_fails_def table_source_def)

lemma example_hashes:
  "commit_hash commit_a = ''a1''" "commit_hash commit_b = ''b2''" "commit_hash commit_c = ''c3''"
  by (simp_all add: commit_a_def commit_b_def commit_c_def)

lemma example_authors:
  "CHR ''<'' \<in> set (author_raw commit_a)" "CHR ''<'' \<in> set (author_raw commit_b)"
  "CHR ''<'' \<in> set (author_raw commit_c)" "CHR ''<'' \<notin> set (author_raw commit_bad)"
  by (simp_all add: commit_a_def commit_b_def commit_c_def commit_bad_def)

subsection \<open>Pagination\<close>

text \<open>
  C5, as stated: N pages served with success, each but the last naming the next one,
  give N page requests and the matches of all pages. One page with success and no next
  pointer, holding a matching commit whose author has no \<^verbatim>\<open><\<close>, is such a sequence;
  the collection makes its page request and the two diff requests and raises IndexError.
\<close>

theorem pagination_raises_on_author:
  "serves broken_author_page (authorization ''tok'') (API_URL ''ws'' ''repo'')
     [\<lparr>page_values = [commit_a, commit_bad], page_next = None\<rparr>]
   \<and> \<not> truthy (page_next (last [\<lparr>page_values = [commit_a, commit_bad], page_next = None\<rparr>]))
   \<and> get_commits (stateless broken_author_page) ''TC1'' ''repo'' ''tok'' ''ws''
       = Some (Inl IndexError,
               [Page_request (API_URL ''ws'' ''repo'') (authorization ''tok''),
                Diff_request (diff_url ''ws'' ''repo'' ''a1'') (authorization ''tok''),
                Diff_request (diff_url ''ws'' ''repo'' ''d4'') (authorization ''tok'')])"
proof -
  let ?p = "\<lparr>page_values = [commit_a, commit_bad], page_next = None\<rparr>"
  have lk: "broken_author_page (API_URL ''ws'' ''repo'') a
              = \<lparr>status_code = 200, response_text = [], response_json = ?p\<rparr>"
    "broken_author_page (diff_url ''ws'' ''repo'' ''a1'') a = diff_ok"
    "broken_author_page (diff_url ''ws'' ''repo'' ''d4'') a = diff_ok" for a
    by (simp_all add: broken_author_page_def table_source_def API_URL_def diff_url_def)
  have sv: "serves broken_author_page (authorization ''tok'') (API_URL ''ws'' ''repo'') [?p]"
    using API_URL_nonempty by (simp add: lk)
  have tr: "\<not> truthy (page_next (last [?p]))" by (simp add: truthy_def)
  have pc: "process_commits (stateless broken_author_page) ''TC1'' ''repo'' ''tok'' ''ws''
              [commit_a, commit_bad] []
              [Page_request (API_URL ''ws'' ''repo'') (authorization ''tok'')]
            = (Inl IndexError,
               [Page_request (API_URL ''ws'' ''repo'') (authorization ''tok''),
                Diff_request (diff_url ''ws'' ''repo'' ''a1'') (authorization ''tok''),
                Diff_request (diff_url ''ws'' ''repo'' ''d4'') (authorization ''tok'')])"
    using example_matches(1,4) example_documents(1) example_authors(4)
      document_of_raises [of commit_bad "''TC1''" diff_ok]
    by (simp add: process_commit_eq stateless_def lk commit_a_def commit_bad_def)
  have "get_commits (stateless broken_author_page) ''TC1'' ''repo'' ''tok'' ''ws''
       = Some (Inl IndexError,
               [Page_request (API_URL ''ws'' ''repo'') (authorization ''tok''),
                Diff_request (diff_url ''ws'' ''repo'' ''a1'') (authorization ''tok''),
                Diff_request (diff_url ''ws'' ''repo'' ''d4'') (authorization ''tok'')])"
    unfolding get_commits_def
    apply (subst paginate.simps)
    using API_URL_nonempty [of "''ws''" "''repo''"]
    apply (simp add: Let_def truthy_def stateless_def lk)
    using pc apply (simp add: stateless_def)
    done
  then show ?thesis using sv tr by simp
qed

text \<open>
  C5, amended. When the source serves N pages with success from the first URL on, each
  page but the last naming the next one and the last naming none, and every matching
  commit has an author with a \<^verbatim>\<open><\<close> (the spec's assumption on authors), then the
  collection returns: it makes exactly N page requests, one after the other, each
  followed by the diff requests of its matches, and its result holds the documents of
  the matching commits of all N pages in the order of the pages, one document per
  matching commit.
\<close>

theorem pagination_aggregates:
  assumes "serves srv (authorization t) (API_URL w s) ps" and "ps \<noteq> []"
      and "\<not> truthy (page_next (last ps))"
      and "\<forall>p \<in> set ps. \<forall>c \<in> set (page_values p).
             matches f c \<longrightarrow> CHR ''<'' \<in> set (author_raw c)"
  shows "get_commits (stateless srv) f s t w =
           Some (Inr (final_result (documents srv f s t w (concat (map page_values ps)))),
                 requests_for f s w (authorization t) (API_URL w s) ps)
         \<and> length (filter is_page_request (requests_for f s w (authorization t) (API_URL w s) ps))
             = length ps
         \<and> map hash (documents srv f s t w (concat (map page_values ps)))
             = map commit_hash (filter (matches f) (concat (map page_values ps)))"
proof -
  have ok: "\<forall>p \<in> set ps. authors_ok f (page_values p)"
    using assms(4) by (simp add: authors_ok_def list_all_iff)
  have "get_commits (stateless srv) f s t w =
          paginate (\<lambda>h. srv) f s t w (page_next (last ps)) False
            ([] @ documents srv f s t w (concat (map page_values ps)))
            ([] @ requests_for f s w (authorization t) (API_URL w s) ps)"
    unfolding get_commits_def stateless_eq
    by (rule paginate_pages [OF assms(1,2) ok])
  then have "get_commits (stateless srv) f s t w =
           Some (Inr (final_result (documents srv f s t w (concat (map page_values ps)))),
                 requests_for f s w (authorization t) (API_URL w s) ps)"
    using assms(3) by (simp add: paginate_stop)
  then show ?thesis
    using page_requests_count documents_hashes [OF authors_ok_concat [OF ok]] by simp
qed

theorem pagination_aggregates_witness:
  "get_commits (stateless two_pages) ''TC1'' ''repo'' ''tok'' ''ws'' =
     Some (Inr (200,
                [\<lparr>hash = ''a1'', message = ''login form testcase: [TC1]'',
                  author_username = ''Jane Doe'', author_email = ''jane@x.com'',
                  function_id = ''TC1'', code_diff = Some ''+ line''\<rparr>,
                 \<lparr>hash = ''c3'', message = ''Testcase : [TC2, TC1] logout'',
                  author_username = ''Sam Roe'', author_email = ''sam@x.com'',
                  function_id = ''TC1'', code_diff = Some ''+ line''\<rparr>]),
           [Page_request (API_URL ''ws'' ''repo'') (authorization ''tok''),
            Diff_request (diff_url ''ws'' ''repo'' ''a1'') (authorization ''tok''),
            Page_request page_2_url (authorization ''tok''),
            Diff_request (diff_url ''ws'' ''repo'' ''c3'') (authorization ''tok'')])"
proof -
  have sv: "serves two_pages (authorization ''tok'') (API_URL ''ws'' ''repo'') [page_1, page_2]"
    using example_urls API_URL_nonempty
    by (simp add: two_pages_lookup page_1_def)
  have ne: "[page_1, page_2] \<noteq> []" by simp
  have tr: "\<not> truthy (page_next (last [page_1, page_2]))"
    by (simp add: page_2_def truthy_def)
  have wf: "\<forall>p \<in> set [page_1, page_2]. \<forall>c \<in> set (page_values p).
              matches ''TC1'' c \<longrightarrow> CHR ''<'' \<in> set (author_raw c)"
    using example_authors by (simp add: page_1_def page_2_def)
  have docs: "documents two_pages ''TC1'' ''repo'' ''tok'' ''ws''
                (concat (map page_values [page_1, page_2]))
      = [\<lparr>hash = ''a1'', message = ''login form testcase: [TC1]'',
          author_username = ''Jane Doe'', author_email = ''jane@x.com'',
          function_id = ''TC1'', code_diff = Some ''+ line''\<rparr>,
         \<lparr>hash = ''c3'', message = ''Testcase : [TC2, TC1] logout'',
          author_username = ''Sam Roe'', author_email = ''sam@x.com'',
          function_id = ''TC1'', code_diff = Some ''+ line''\<rparr>]"
    by (simp add: documents_def page_1_def page_2_def example_matches example_hashes
        two_pages_lookup example_documents)
  have reqs: "requests_for ''TC1'' ''repo'' ''ws'' (authorization ''tok'') (API_URL ''ws'' ''repo'')
                [page_1, page_2]
      = [Page_request (API_URL ''ws'' ''repo'') (authorization ''tok''),
         Diff_request (diff_url ''ws'' ''repo'' ''a1'') (authorization ''tok''),
         Page_request page_2_url (authorization ''tok''),
         Diff_request (diff_url ''ws'' ''repo'' ''c3'') (authorization ''tok'')]"
    by (simp add: page_1_def page_2_def example_matches example_hashes)
  show ?thesis
    using pagination_aggregates [OF sv ne tr wf]
    by (simp only: docs reqs final_result_def) simp
qed

text \<open>
  C10. When the pages served so far were successful and the request for the next page
  comes back with another status than 200, the loop ends and the collection returns the
  documents gathered so far with status 200, or status 404 when there are none: the
  same result a complete retrieval of those pages gives (theorem above), the failing
  status does not show in it.
\<close>

theorem mid_pagination_failure:
  assumes "serves srv (authorization t) (API_URL w s) ps" and "ps \<noteq> []"
      and "page_next (last ps) = Some u'" and "u' \<noteq> []"
      and "status_code (srv u' (authorization t)) \<noteq> 200"
      and "\<forall>p \<in> set ps. \<forall>c \<in> set (page_values p).
             matches f c \<longrightarrow> CHR ''<'' \<in> set (author_raw c)"
  shows "get_commits (stateless srv) f s t w =
           Some (Inr (if documents srv f s t w (concat (map page_values ps)) \<noteq> []
                      then (200, documents srv f s t w (concat (map page_values ps)))
                      else (404, [])),
                 requests_for f s w (authorization t) (API_URL w s) ps
                 @ [Page_request u' (authorization t)])"
proof -
  have ok: "\<forall>p \<in> set ps. authors_ok f (page_values p)"
    using assms(6) by (simp add: authors_ok_def list_all_iff)
  have "get_commits (stateless srv) f s t w =
          paginate (\<lambda>h. srv) f s t w (page_next (last ps)) False
            ([] @ documents srv f s t w (concat (map page_values ps)))
            ([] @ requests_for f s w (authorization t) (API_URL w s) ps)"
    unfolding get_commits_def stateless_eq
    by (rule paginate_pages [OF assms(1,2) ok])
  then show ?thesis
    using assms(3,4,5)
      paginate_later_failure [of u' "\<lambda>h. srv" _ t f s w]
    by (simp add: final_result_def)
qed

theorem mid_pagination_failure_witness:
  "get_commits (stateless second_page_fails) ''TC1'' ''repo'' ''tok'' ''ws'' =
     Some (Inr (200,
                [\<lparr>hash = ''a1'', message = ''login form testcase: [TC1]'',
                  author_username = ''Jane Doe'', author_email = ''jane@x.com'',
                  function_id = ''TC1'', code_diff = Some ''+ line''\<rparr>]),
           [Page_request (API_URL ''ws'' ''repo'') (authorization ''tok''),
            Diff_request (diff_url ''ws'' ''repo'' ''a1'') (authorization ''tok''),
            Page_request page_2_url (authorization ''tok'')])"
proof -
  have sv: "serves second_page_fails (authorization ''tok'') (API_URL ''ws'' ''repo'') [page_1]"
    using API_URL_nonempty by (simp add: second_page_fails_lookup)
  have ne: "[page_1] \<noteq> []" by simp
  have nx: "page_next (last [page_1]) = Some page_2_url" by (simp add: page_1_def)
  have fl: "status_code (second_page_fails page_2_url (authorization ''tok'')) \<noteq> 200"
    by (simp add: second_page_fails_lookup)
  have wf: "\<forall>p \<in> set [page_1]. \<forall>c \<in> set (page_values p).
              matches ''TC1'' c \<longrightarrow> CHR ''<'' \<in> set (author_raw c)"
    using example_authors by (simp add: page_1_def)
  have docs: "documents second_page_fails ''TC1'' ''repo'' ''tok'' ''ws''
                (concat (map page_values [page_1]))
      = [\<lparr>hash = ''a1'', message = ''login form testcase: [TC1]'',
          author_username = ''Jane Doe'', author_email = ''jane@x.com'',
          function_id = ''TC1'', code_diff = Some ''+ line''\<rparr>]"
    by (simp add: documents_def page_1_def example_matches example_hashes
        second_page_fails_lookup example_documents)
  have reqs: "requests_for ''TC1'' ''repo'' ''ws'' (authorization ''tok'') (API_URL ''ws'' ''repo'')
                [page_1]
      = [Page_request (API_URL ''ws'' ''repo'') (authorization ''tok''),
         Diff_request (diff_url ''ws'' ''repo'' ''a1'') (authorization ''tok'')]"
    by (simp add: page_1_def example_matches example_hashes)
  show ?thesis
    using mid_pagination_failure [OF sv ne nx example_urls(2) fl wf]
    by (simp only: docs reqs) simp
qed

subsection \<open>Authors without an email block\<close>

text \<open>
  C9. A matching commit whose author string holds no \<^verbatim>\<open><\<close>, on any of the pages
  served, makes the whole collection raise IndexError. The loop over the commits of a
  page raises exactly when the page holds such a commit.
\<close>

theorem malformed_author_raises:
  "(serves srv (authorization t) (API_URL w s) ps
      \<and> (\<exists>p \<in> set ps. \<exists>c \<in> set (page_values p).
            matches f c \<and> CHR ''<'' \<notin> set (author_raw c))
      \<longrightarrow> (\<exists>h. get_commits (stateless srv) f s t w = Some (Inl IndexError, h)))
   \<and> ((\<exists>h. process_commits get f s t w cs fc hist = (Inl IndexError, h))
        \<longleftrightarrow> (\<exists>c \<in> set cs. matches f c \<and> CHR ''<'' \<notin> set (author_raw c)))"
proof (intro conjI impI)
  assume a: "serves srv (authorization t) (API_URL w s) ps
      \<and> (\<exists>p \<in> set ps. \<exists>c \<in> set (page_values p).
            matches f c \<and> CHR ''<'' \<notin> set (author_raw c))"
  then have "\<exists>p \<in> set ps. \<not> authors_ok f (page_values p)"
    by (auto simp: authors_ok_def list_all_iff)
  then show "\<exists>h. get_commits (stateless srv) f s t w = Some (Inl IndexError, h)"
    unfolding get_commits_def stateless_eq
    using a paginate_raises by blast
next
  have "\<not> authors_ok f cs \<longleftrightarrow> (\<exists>c \<in> set cs. matches f c \<and> CHR ''<'' \<notin> set (author_raw c))"
    by (auto simp: authors_ok_def list_all_iff)
  moreover have "(\<exists>h. process_commits get f s t w cs fc hist = (Inl IndexError, h))
                   \<longleftrightarrow> \<not> authors_ok f cs"
  proof
    assume "\<exists>h. process_commits get f s t w cs fc hist = (Inl IndexError, h)"
    then show "\<not> authors_ok f cs"
      using process_commits_ok [of f cs get s t w fc hist] by auto
  next
    assume "\<not> authors_ok f cs"
    then show "\<exists>h. process_commits get f s t w cs fc hist = (Inl IndexError, h)"
      by (rule process_commits_raises)
  qed
  ultimately show "(\<exists>h. process_commits get f s t w cs fc hist = (Inl IndexError, h))
        \<longleftrightarrow> (\<exists>c \<in> set cs. matches f c \<and> CHR ''<'' \<notin> set (author_raw c))"
    by simp
qed

theorem malformed_author_raises_witness:
  "fst (the (get_commits (stateless broken_author_page) ''TC1'' ''repo'' ''tok'' ''ws''))
     = Inl IndexError
   \<and> fst (process_commits (stateless broken_author_page) ''TC1'' ''repo'' ''tok'' ''ws''
            [commit_a, commit_bad] [] []) = Inl IndexError"
proof -
  let ?p = "\<lparr>page_values = [commit_a, commit_bad], page_next = None\<rparr>"
  have sv: "serves broken_author_page (authorization ''tok'') (API_URL ''ws'' ''repo'') [?p]"
    using API_URL_nonempty by (simp add: broken_author_page_def table_source_def)
  have bad: "\<exists>p \<in> set [?p]. \<exists>c \<in> set (page_values p).
               matches ''TC1'' c \<and> CHR ''<'' \<notin> set (author_raw c)"
    using example_matches(4) example_authors(4) by simp
  have bad2: "\<exists>c \<in> set [commit_a, commit_bad].
                matches ''TC1'' c \<and> CHR ''<'' \<notin> set (author_raw c)"
    using example_matches(4) example_authors(4) by simp
  have t: "(\<exists>h. get_commits (stateless broken_author_page) ''TC1'' ''repo'' ''tok'' ''ws''
                   = Some (Inl IndexError, h))
           \<and> (\<exists>h. process_commits (stateless broken_author_page) ''TC1'' ''repo'' ''tok'' ''ws''
                      [commit_a, commit_bad] [] [] = (Inl IndexError, h))"
    using malformed_author_raises
            [of broken_author_page "''tok''" "''ws''" "''repo''" "[?p]" "''TC1''"
                "stateless broken_author_page" "[commit_a, commit_bad]" "[]" "[]"]
          sv bad bad2
    by blast
  then show ?thesis by auto
qed

subsection \<open>The first page\<close>

text \<open>
  A first page that does not come with status 200 ends the collection at once: the
  status is returned with no documents, and nothing else is requested.
\<close>

lemma first_page_failure:
  assumes "status_code (get [] (API_URL w s) (authorization t)) \<noteq> 200"
  shows "get_commits get f s t w =
           Some (Inr (status_code (get [] (API_URL w s) (authorization t)), []),
                 [Page_request (API_URL w s) (authorization t)])"
  using assms paginate_first_failure [of "API_URL w s" get "[]" t f s w "[]"] API_URL_nonempty
  by (simp add: get_commits_def)

lemma first_page_503:
  "get_commits (stateless (fixed_source
       \<lparr>status_code = 503, response_text = ''Service Unavailable'',
        response_json = \<lparr>page_values = [], page_next = None\<rparr>\<rparr>)) ''TC1'' ''repo'' ''tok'' ''ws''
     = Some (Inr (503, []), [Page_request (API_URL ''ws'' ''repo'') (authorization ''tok'')])"
  by (subst first_page_failure) (simp_all add: stateless_def fixed_source_def)

text \<open>
  C4. The early return holds for every status (lemmas \<open>first_page_failure\<close> and
  \<open>first_page_503\<close>). The result cannot always be told from the result for no match: a
  first page answered with status 404 gives \<open>(404, [])\<close>, and so does a successful
  retrieval in which no commit matches.
\<close>

theorem first_page_404_ambiguous:
  "get_commits (stateless (fixed_source
       \<lparr>status_code = 404, response_text = ''Not Found'',
        response_json = \<lparr>page_values = [], page_next = None\<rparr>\<rparr>)) ''TC1'' ''repo'' ''tok'' ''ws''
     = Some (Inr (404, []), [Page_request (API_URL ''ws'' ''repo'') (authorization ''tok'')])
   \<and> get_commits (stateless (fixed_source
       \<lparr>status_code = 200, response_text = [],
        response_json = \<lparr>page_values = [commit_b], page_next = None\<rparr>\<rparr>)) ''TC1'' ''repo'' ''tok'' ''ws''
     = Some (Inr (404, []), [Page_request (API_URL ''ws'' ''repo'') (authorization ''tok'')])"
proof
  show "get_commits (stateless (fixed_source
       \<lparr>status_code = 404, response_text = ''Not Found'',
        response_json = \<lparr>page_values = [], page_next = None\<rparr>\<rparr>)) ''TC1'' ''repo'' ''tok'' ''ws''
     = Some (Inr (404, []), [Page_request (API_URL ''ws'' ''repo'') (authorization ''tok'')])"
    by (subst first_page_failure) (simp_all add: stateless_def fixed_source_def)
next
  let ?r = "\<lparr>status_code = 200, response_text = [],
             response_json = \<lparr>page_values = [commit_b], page_next = None\<rparr>\<rparr>"
  have "paginate (\<lambda>h. fixed_source ?r) ''TC1'' ''repo'' ''tok'' ''ws''
          (Some (API_URL ''ws'' ''repo'')) True [] [] =
        paginate (\<lambda>h. fixed_source ?r) ''TC1'' ''repo'' ''tok'' ''ws'' None False []
          [Page_request (API_URL ''ws'' ''repo'') (authorization ''tok'')]"
    using paginate_page [of "API_URL ''ws'' ''repo''" "fixed_source ?r" "''tok''" "''TC1''"
        "''repo''" "''ws''" True "[]" "[]"] API_URL_nonempty example_matches(2)
    by (simp add: fixed_source_def authors_ok_def documents_def)
  then show "get_commits (stateless (fixed_source ?r)) ''TC1'' ''repo'' ''tok'' ''ws''
     = Some (Inr (404, []), [Page_request (API_URL ''ws'' ''repo'') (authorization ''tok'')])"
    by (simp add: get_commits_def stateless_eq paginate_stop truthy_def final_result_def)
qed

subsection \<open>The function id of a document\<close>

lemma commit_document_intersection:
  assumes "matches f c" "document_of f r c = Inr d"
  shows "intersection_of f d"
proof -
  obtain g where g: "search_testcase (strip (commit_message c)) = Some g"
    and ex: "list_ex (\<lambda>fid. fid \<in> set (id_list g)) (id_list f)"
    using assms(1) by (auto simp: matches_def split: option.splits)
  have m: "message d = strip (commit_message c)"
    and fi: "function_id d = join '', '' (filter (\<lambda>tc. tc \<in> set (id_list f)) (id_list g))"
    using assms(2) g
    by (auto simp: document_of_def commit_document_def split: list.splits)
  obtain x where "x \<in> set (id_list f)" "x \<in> set (id_list g)"
    using ex by (auto simp: list_ex_iff)
  then have "filter (\<lambda>tc. tc \<in> set (id_list f)) (id_list g) \<noteq> []"
    by (auto simp: filter_empty_conv)
  then show ?thesis using m g fi by (simp add: intersection_of_def)
qed

lemma process_commit_intersection:
  assumes "process_commit get f s t w c fc hist = (Inr fc', h)"
      and "\<forall>d \<in> set fc. intersection_of f d"
  shows "\<forall>d \<in> set fc'. intersection_of f d"
proof (cases "matches f c")
  case False
  then show ?thesis using assms by (simp add: process_commit_eq)
next
  case True
  then obtain d where "document_of f (get hist (diff_url w s (commit_hash c)) (authorization t)) c = Inr d"
    and "fc' = fc @ [d]"
    using assms(1) by (auto simp: process_commit_eq split: sum.splits)
  then show ?thesis
    using assms(2) commit_document_intersection [OF True] by auto
qed

lemma process_commits_intersection:
  assumes "process_commits get f s t w cs fc hist = (Inr fc', h)"
      and "\<forall>d \<in> set fc. intersection_of f d"
  shows "\<forall>d \<in> set fc'. intersection_of f d"
  using assms
proof (induction cs arbitrary: fc hist)
  case Nil
  then show ?case by simp
next
  case (Cons c cs)
  obtain r h1 where p: "process_commit get f s t w c fc hist = (r, h1)"
    by (cases "process_commit get f s t w c fc hist")
  show ?case
  proof (cases r)
    case (Inl e)
    then show ?thesis using Cons.prems(1) p by simp
  next
    case (Inr fc1)
    then have "\<forall>d \<in> set fc1. intersection_of f d"
      using process_commit_intersection p Cons.prems(2) by blast
    moreover have "process_commits get f s t w cs fc1 h1 = (Inr fc', h)"
      using Cons.prems(1) p Inr by simp
    ultimately show ?thesis using Cons.IH by blast
  qed
qed

lemma paginate_intersection:
  assumes run: "paginate get f s t w next_url first fc hist = Some r"
  shows "(\<forall>d \<in> set fc. intersection_of f d) \<longrightarrow>
         (\<forall>status docs h. r = (Inr (status, docs), h) \<longrightarrow> (\<forall>d \<in> set docs. intersection_of f d))"
proof (rule paginate.raw_induct
    [where P = "\<lambda>get f s t w next_url first fc hist r.
       (\<forall>d \<in> set fc. intersection_of f d) \<longrightarrow>
       (\<forall>status docs h. r = (Inr (status, docs), h) \<longrightarrow> (\<forall>d \<in> set docs. intersection_of f d))",
     OF _ run])
  fix pg :: "transport \<Rightarrow> string \<Rightarrow> string \<Rightarrow> string \<Rightarrow> string \<Rightarrow> string option \<Rightarrow> bool
               \<Rightarrow> evidence list \<Rightarrow> request list
               \<Rightarrow> ((py_error + int \<times> evidence list) \<times> request list) option"
  fix get f s t w next_url first fc hist r
  assume IH: "\<And>get f s t w next_url first fc hist y.
     pg get f s t w next_url first fc hist = Some y \<Longrightarrow>
       (\<forall>d \<in> set fc. intersection_of f d) \<longrightarrow>
       (\<forall>status docs h. y = (Inr (status, docs), h) \<longrightarrow> (\<forall>d \<in> set docs. intersection_of f d))"
  assume body: "(case next_url of
        None \<Rightarrow> Some (Inr (final_result fc), hist)
      | Some url \<Rightarrow>
          if url = [] then Some (Inr (final_result fc), hist)
          else (let response = get hist url (authorization t);
                    hist1 = hist @ [Page_request url (authorization t)]
                in if first \<and> status_code response \<noteq> 200
                   then Some (Inr (status_code response, []), hist1)
                   else if status_code response = 200
                   then (case process_commits get f s t w
                                 (page_values (response_json response)) fc hist1 of
                           (Inl e, hist2) \<Rightarrow> Some (Inl e, hist2)
                         | (Inr fc', hist2) \<Rightarrow>
                             pg get f s t w (page_next (response_json response)) False fc' hist2)
                   else pg get f s t w None False fc hist1)) = Some r"
  show "(\<forall>d \<in> set fc. intersection_of f d) \<longrightarrow>
       (\<forall>status docs h. r = (Inr (status, docs), h) \<longrightarrow> (\<forall>d \<in> set docs. intersection_of f d))"
  proof (intro impI allI)
    fix status docs h
    assume good: "\<forall>d \<in> set fc. intersection_of f d" and r: "r = (Inr (status, docs), h)"
    have fin: "Some (Inr (final_result fc), hist) = Some r \<Longrightarrow> \<forall>d \<in> set docs. intersection_of f d"
      using good r by (auto simp: final_result_def split: if_splits)
    show "\<forall>d \<in> set docs. intersection_of f d"
    proof (cases next_url)
      case None
      then show ?thesis using body fin by simp
    next
      case (Some url)
      show ?thesis
      proof (cases "url = []")
        case True
        then show ?thesis using body Some fin by simp
      next
        case False
        let ?resp = "get hist url (authorization t)"
        let ?h1 = "hist @ [Page_request url (authorization t)]"
        consider (fail1) "first" "status_code ?resp \<noteq> 200"
          | (ok) "status_code ?resp = 200"
          | (fail2) "\<not> first" "status_code ?resp \<noteq> 200"
          by blast
        then show ?thesis
        proof cases
          case fail1
          then have "r = (Inr (status_code ?resp, []), ?h1)"
            using body Some False by (simp add: Let_def)
          then show ?thesis using r by simp
        next
          case ok
          obtain res h2 where pc: "process_commits get f s t w
              (page_values (response_json ?resp)) fc ?h1 = (res, h2)"
            by (cases "process_commits get f s t w (page_values (response_json ?resp)) fc ?h1")
          show ?thesis
          proof (cases res)
            case (Inl e)
            then have "r = (Inl e, h2)"
              using body Some False ok pc by (simp add: Let_def)
            then show ?thesis using r by simp
          next
            case (Inr fc')
            then have call: "pg get f s t w (page_next (response_json ?resp)) False fc' h2 = Some r"
              using body Some False ok pc by (simp add: Let_def)
            have "\<forall>d \<in> set fc'. intersection_of f d"
              using process_commits_intersection pc Inr good by blast
            then show ?thesis using IH [OF call] r by blast
          qed
        next
          case fail2
          then have "pg get f s t w None False fc ?h1 = Some r"
            using body Some False by (simp add: Let_def)
          then show ?thesis using IH good r by blast
        qed
      qed
    qed
  qed
qed

lemma get_commits_served:
  assumes "serves srv (authorization t) (API_URL w s) ps" and "ps \<noteq> []"
      and "\<not> truthy (page_next (last ps))"
      and "\<forall>p \<in> set ps. authors_ok f (page_values p)"
  shows "get_commits (stateless srv) f s t w =
           Some (Inr (final_result (documents srv f s t w (concat (map page_values ps)))),
                 requests_for f s w (authorization t) (API_URL w s) ps)"
proof -
  have "get_commits (stateless srv) f s t w =
          paginate (\<lambda>h. srv) f s t w (page_next (last ps)) False
            ([] @ documents srv f s t w (concat (map page_values ps)))
            ([] @ requests_for f s w (authorization t) (API_URL w s) ps)"
    unfolding get_commits_def stateless_eq
    by (rule paginate_pages [OF assms(1,2,4)])
  then show ?thesis
    using assms(3) by (simp add: paginate_stop)
qed

lemma ab_run:
  "get_commits (stateless ab_source) f ''repo'' ''tok'' ''ws'' =
     Some (Inr (final_result (documents ab_source f ''repo'' ''tok'' ''ws'' [commit_ab, commit_b])),
           requests_for f ''repo'' ''ws'' (authorization ''tok'') (API_URL ''ws'' ''repo'')
             [\<lparr>page_values = [commit_ab, commit_b], page_next = None\<rparr>])"
proof -
  let ?p = "\<lparr>page_values = [commit_ab, commit_b], page_next = None\<rparr>"
  have sv: "serves ab_source (authorization ''tok'') (API_URL ''ws'' ''repo'') [?p]"
    using API_URL_nonempty by (simp add: ab_source_def fixed_source_def)
  have ok: "\<forall>p \<in> set [?p]. authors_ok f (page_values p)"
    by (simp add: authors_ok_def commit_ab_def commit_b_def)
  show ?thesis
    using get_commits_served [OF sv _ _ ok] by (simp add: truthy_def)
qed

lemma ab_tags:
  "search_testcase ''testcase: [A, B]'' = Some ''A, B''"
  "id_list ''A, B'' = [''A'', ''B'']" "id_list ''B, C'' = [''B'', ''C'']"
  "strip ''testcase: [A, B]'' = ''testcase: [A, B]''"
  "search_testcase (strip ''update readme'') = None"
  by (simp_all add: tag_defs)

lemma ab_documents:
  "documents ab_source ''A, B'' ''repo'' ''tok'' ''ws'' [commit_ab, commit_b]
     = [\<lparr>hash = ''e5'', message = ''testcase: [A, B]'', author_username = ''Jane Doe'',
         author_email = ''jane@x.com'', function_id = ''A, B'', code_diff = Some ''+ line''\<rparr>]"
  "documents ab_source ''B, C'' ''repo'' ''tok'' ''ws'' [commit_ab, commit_b]
     = [\<lparr>hash = ''e5'', message = ''testcase: [A, B]'', author_username = ''Jane Doe'',
         author_email = ''jane@x.com'', function_id = ''B'', code_diff = Some ''+ line''\<rparr>]"
  by (simp_all add: documents_def document_of_def commit_document_def diff_of_response_def
      ab_source_def fixed_source_def commit_ab_def commit_b_def strip_chars_def tag_defs)

lemma ab_requests:
  "requests_for ''A, B'' ''repo'' ''ws'' (authorization ''tok'') (API_URL ''ws'' ''repo'')
     [\<lparr>page_values = [commit_ab, commit_b], page_next = None\<rparr>]
   = [Page_request (API_URL ''ws'' ''repo'') (authorization ''tok''),
      Diff_request (diff_url ''ws'' ''repo'' ''e5'') (authorization ''tok'')]"
  "requests_for ''B, C'' ''repo'' ''ws'' (authorization ''tok'') (API_URL ''ws'' ''repo'')
     [\<lparr>page_values = [commit_ab, commit_b], page_next = None\<rparr>]
   = [Page_request (API_URL ''ws'' ''repo'') (authorization ''tok''),
      Diff_request (diff_url ''ws'' ''repo'' ''e5'') (authorization ''tok'')]"
  by (simp_all add: commit_ab_def commit_b_def tag_defs)

text \<open>
  C2, as stated: the function id of a document is never the full tag list of its commit.
  For the message \<^verbatim>\<open>testcase: [A, B]\<close> and the requested ids \<^verbatim>\<open>A, B\<close> it is: every tag
  is requested, and the function id \<^verbatim>\<open>A, B\<close> is the whole tag list.
\<close>

theorem function_id_full_tag_list:
  "get_commits (stateless ab_source) ''A, B'' ''repo'' ''tok'' ''ws'' =
     Some (Inr (200,
                [\<lparr>hash = ''e5'', message = ''testcase: [A, B]'', author_username = ''Jane Doe'',
                  author_email = ''jane@x.com'', function_id = ''A, B'',
                  code_diff = Some ''+ line''\<rparr>]),
           [Page_request (API_URL ''ws'' ''repo'') (authorization ''tok''),
            Diff_request (diff_url ''ws'' ''repo'' ''e5'') (authorization ''tok'')])
   \<and> search_testcase ''testcase: [A, B]'' = Some ''A, B''
   \<and> join '', '' (id_list ''A, B'') = ''A, B''"
proof -
  have "get_commits (stateless ab_source) ''A, B'' ''repo'' ''tok'' ''ws'' =
     Some (Inr (200,
                [\<lparr>hash = ''e5'', message = ''testcase: [A, B]'', author_username = ''Jane Doe'',
                  author_email = ''jane@x.com'', function_id = ''A, B'',
                  code_diff = Some ''+ line''\<rparr>]),
           [Page_request (API_URL ''ws'' ''repo'') (authorization ''tok''),
            Diff_request (diff_url ''ws'' ''repo'' ''e5'') (authorization ''tok'')])"
    by (simp only: ab_run ab_documents ab_requests final_result_def) simp
  moreover have "join '', '' (id_list ''A, B'') = ''A, B''"
    by (simp add: ab_tags)
  ultimately show ?thesis using ab_tags(1) by blast
qed

text \<open>
  C2, amended. Every document the collection returns carries, as its function id, the
  ids of its own tag block that are also requested, in the order of the block, joined by
  a comma and a space, and there is at least one; that list is the full tag list exactly
  when every tag of the block is requested. A commit whose message has no tag block, or
  whose tags share no id with the requested ones, adds no document and causes no request.
\<close>

theorem function_id_is_intersection:
  "(get_commits get f s t w = Some (Inr (status, docs), h) \<and> d \<in> set docs
      \<longrightarrow> (\<exists>group1. search_testcase (message d) = Some group1
            \<and> function_id d
                = join '', '' (filter (\<lambda>tc. tc \<in> set (id_list f)) (id_list group1))
            \<and> filter (\<lambda>tc. tc \<in> set (id_list f)) (id_list group1) \<noteq> []
            \<and> (filter (\<lambda>tc. tc \<in> set (id_list f)) (id_list group1) = id_list group1
                 \<longleftrightarrow> set (id_list group1) \<subseteq> set (id_list f))))
   \<and> (search_testcase (strip (commit_message c)) = None
        \<or> (\<exists>group1. search_testcase (strip (commit_message c)) = Some group1
                \<and> set (id_list group1) \<inter> set (id_list f) = {})
      \<longrightarrow> process_commit get f s t w c fc hist = (Inr fc, hist))"
proof (intro conjI impI)
  assume a: "get_commits get f s t w = Some (Inr (status, docs), h) \<and> d \<in> set docs"
  then have "\<forall>d \<in> set docs. intersection_of f d"
    using paginate_intersection [of get f s t w "Some (API_URL w s)" True "[]" "[]"
        "(Inr (status, docs), h)"]
    by (simp add: get_commits_def)
  then have "intersection_of f d" using a by blast
  then obtain g where g: "search_testcase (message d) = Some g"
    and fi: "function_id d = join '', '' (filter (\<lambda>tc. tc \<in> set (id_list f)) (id_list g))"
    and ne: "filter (\<lambda>tc. tc \<in> set (id_list f)) (id_list g) \<noteq> []"
    by (auto simp: intersection_of_def split: option.splits)
  have "filter (\<lambda>tc. tc \<in> set (id_list f)) (id_list g) = id_list g
          \<longleftrightarrow> set (id_list g) \<subseteq> set (id_list f)"
    by (auto simp: filter_id_conv)
  then show "\<exists>group1. search_testcase (message d) = Some group1
            \<and> function_id d
                = join '', '' (filter (\<lambda>tc. tc \<in> set (id_list f)) (id_list group1))
            \<and> filter (\<lambda>tc. tc \<in> set (id_list f)) (id_list group1) \<noteq> []
            \<and> (filter (\<lambda>tc. tc \<in> set (id_list f)) (id_list group1) = id_list group1
                 \<longleftrightarrow> set (id_list group1) \<subseteq> set (id_list f))"
    using g fi ne by blast
next
  assume "search_testcase (strip (commit_message c)) = None
        \<or> (\<exists>group1. search_testcase (strip (commit_message c)) = Some group1
                \<and> set (id_list group1) \<inter> set (id_list f) = {})"
  then have "\<not> matches f c"
    by (auto simp: matches_def list_ex_iff)
  then show "process_commit get f s t w c fc hist = (Inr fc, hist)"
    by (simp add: process_commit_eq)
qed

theorem function_id_is_intersection_witness:
  "get_commits (stateless ab_source) ''B, C'' ''repo'' ''tok'' ''ws'' =
     Some (Inr (200,
                [\<lparr>hash = ''e5'', message = ''testcase: [A, B]'', author_username = ''Jane Doe'',
                  author_email = ''jane@x.com'', function_id = ''B'',
                  code_diff = Some ''+ line''\<rparr>]),
           [Page_request (API_URL ''ws'' ''repo'') (authorization ''tok''),
            Diff_request (diff_url ''ws'' ''repo'' ''e5'') (authorization ''tok'')])
   \<and> join '', '' (filter (\<lambda>tc. tc \<in> set (id_list ''B, C'')) (id_list ''A, B'')) = ''B''
   \<and> process_commit (stateless ab_source) ''B, C'' ''repo'' ''tok'' ''ws'' commit_b [] []
       = (Inr [], [])"
proof -
  let ?d = "\<lparr>hash = ''e5'', message = ''testcase: [A, B]'', author_username = ''Jane Doe'',
              author_email = ''jane@x.com'', function_id = ''B'', code_diff = Some ''+ line''\<rparr>"
  let ?h = "[Page_request (API_URL ''ws'' ''repo'') (authorization ''tok''),
             Diff_request (diff_url ''ws'' ''repo'' ''e5'') (authorization ''tok'')]"
  have run: "get_commits (stateless ab_source) ''B, C'' ''repo'' ''tok'' ''ws''
               = Some (Inr (200, [?d]), ?h)"
    by (simp only: ab_run ab_documents ab_requests final_result_def) simp
  have none: "search_testcase (strip (commit_message commit_b)) = None"
    by (simp add: commit_b_def ab_tags)
  note t = function_id_is_intersection
             [of "stateless ab_source" "''B, C''" "''repo''" "''tok''" "''ws''" 200 "[?d]" ?h ?d
                 commit_b "[]" "[]"]
  from t run obtain g where g: "search_testcase (message ?d) = Some g"
    and fi: "function_id ?d
               = join '', '' (filter (\<lambda>tc. tc \<in> set (id_list ''B, C'')) (id_list g))"
    by auto
  have "g = ''A, B''" using g ab_tags(1) by (simp del: search_testcase.simps)
  then have j: "join '', '' (filter (\<lambda>tc. tc \<in> set (id_list ''B, C'')) (id_list ''A, B'')) = ''B''"
    using fi by simp
  have p: "process_commit (stateless ab_source) ''B, C'' ''repo'' ''tok'' ''ws'' commit_b [] []
       = (Inr [], [])"
    using t none by blast
  show ?thesis using run j p by blast
qed

end
